theory Spec2Isabelle
  imports Complex_Main "HOL-Library.Multiset"
begin

section \<open>ibdprep: pedigree ingestion (getPedData, unknown)\<close>

text \<open>
  The pedigree file is read one fixed-width record at a time. In indexing mode
  (\<open>doIndex\<close>) the format string is a sequence of \<open>%Nc\<close> conversions, so each field
  is the next \<open>N\<close> characters of the line; the record length has been checked before,
  hence every field is read in full. Strings are C strings: \<open>strcmp(a, b) == 0\<close> is
  equality of the character lists.
\<close>

fun unknown :: "string \<Rightarrow> bool" where
  "unknown [] = True"
| "unknown (c # p) =
     (if c \<noteq> CHR '' '' \<and> c \<noteq> CHR 0x09 \<and> c \<noteq> CHR ''0'' then False else unknown p)"

record config =
  FamidLen :: nat
  IdLen :: nat
  SexLen :: nat
  TwinIdLen :: nat
  HHIdLen :: nat

datatype fatal =
    IncorrectRecordLength nat
  | TooManyIndividuals nat
  | DataErrorsFound nat string
  | PedigreeErrorAssigningGenerations

definition MAXIND :: nat where
  "MAXIND = 210000"

definition ERRFILE :: string where
  "ERRFILE = ''ibdprep.err''"

text \<open>
  The part of the global state that \<open>getPedData\<close> writes: per individual the id, the
  sex code (\<open>None\<close> where the switch falls to \<open>default\<close> and stores nothing), the
  generation and the index into \<open>famList\<close> (\<open>-1\<close> for a founder); the list of
  father-mother keys; the founder and the error counters. \<open>NumInd\<close> is the number of
  individuals stored so far.
\<close>

record ingest =
  ids :: "string list"
  sexs :: "nat option list"
  gens :: "int list"
  idFam :: "int list"
  famList :: "string list"
  NumFou :: nat
  ErrCnt :: nat

definition NumInd :: "ingest \<Rightarrow> nat" where
  "NumInd s = length (ids s)"

definition logError :: "ingest \<Rightarrow> ingest" where
  "logError s = s\<lparr>ErrCnt := ErrCnt s + 1\<rparr>"

definition recLen :: "config \<Rightarrow> nat" where
  "recLen c = FamidLen c + 3 * IdLen c + SexLen c + TwinIdLen c + HHIdLen c + 1"

text \<open>The \<open>sscanf\<close> of one record: famid, id, fa, mo, sex as consecutive fields.\<close>

definition scanRec :: "config \<Rightarrow> string \<Rightarrow> string \<times> string \<times> string \<times> string \<times> string" where
  "scanRec c l =
     (let famid = take (FamidLen c) l;
          l1 = drop (FamidLen c) l;
          id = take (IdLen c) l1;
          l2 = drop (IdLen c) l1;
          fa = take (IdLen c) l2;
          l3 = drop (IdLen c) l2;
          mo = take (IdLen c) l3;
          l4 = drop (IdLen c) l3;
          sex = take (SexLen c) l4
      in (famid, id, fa, mo, sex))"

text \<open>
  With a family-id prefix, the id is prefixed by it; a known parent id too, an unknown
  one by blanks.
\<close>

definition prefixParent :: "config \<Rightarrow> string \<Rightarrow> string \<Rightarrow> string" where
  "prefixParent c famid p =
     (if FamidLen c \<noteq> 0
      then (if \<not> unknown p then famid else replicate (FamidLen c) CHR '' '') @ p
      else p)"

definition prefixId :: "config \<Rightarrow> string \<Rightarrow> string \<Rightarrow> string" where
  "prefixId c famid i = (if FamidLen c \<noteq> 0 then famid @ i else i)"

text \<open>
  The character the switch on the sex field looks at: the first non-blank one, or the
  first one when the field is blank.
\<close>

definition sexChar :: "string \<Rightarrow> char" where
  "sexChar sex = (case dropWhile (\<lambda>ch. ch = CHR '' '') sex of [] \<Rightarrow> hd (sex @ [CHR 0x00]) | ch # _ \<Rightarrow> ch)"

definition sexCode :: "char \<Rightarrow> nat option" where
  "sexCode ch =
     (if ch = CHR ''1'' \<or> ch = CHR ''M'' \<or> ch = CHR ''m'' then Some 1
      else if ch = CHR ''2'' \<or> ch = CHR ''F'' \<or> ch = CHR ''f'' then Some 2
      else if ch = CHR '' '' \<or> ch = CHR ''0'' \<or> ch = CHR ''U'' \<or> ch = CHR ''u'' then Some 0
      else None)"

definition checkSex :: "string \<Rightarrow> ingest \<Rightarrow> ingest" where
  "checkSex sex s =
     (case sexCode (sexChar sex) of
        Some v \<Rightarrow> s\<lparr>sexs := sexs s @ [Some v]\<rparr>
      | None \<Rightarrow> logError (s\<lparr>sexs := sexs s @ [None]\<rparr>))"

text \<open>Lines 844 to 879: the checks on the parents of one record.\<close>

definition checkParents :: "string \<Rightarrow> string \<Rightarrow> string \<Rightarrow> ingest \<Rightarrow> ingest" where
  "checkParents i fa mo s =
     (if \<not> unknown fa \<or> \<not> unknown mo then
        (let s1 = (if unknown fa \<or> unknown mo then logError s else s);
             s2 = (if i = fa then logError s1 else s1);
             s3 = (if i = mo then logError s2 else s2);
             s4 = (if fa = mo then logError s3 else s3)
         in s4\<lparr>idFam := idFam s4 @ [int (length (famList s4))],
                gens := gens s4 @ [-1],
                famList := famList s4 @ [fa @ mo]\<rparr>)
      else s\<lparr>idFam := idFam s @ [-1], gens := gens s @ [0], NumFou := NumFou s + 1\<rparr>)"

definition pedRecord :: "config \<Rightarrow> ingest \<Rightarrow> string \<Rightarrow> ingest" where
  "pedRecord c s l =
     (case scanRec c l of (famid, id0, fa0, mo0, sex) \<Rightarrow>
        (let i = prefixId c famid id0;
             fa = prefixParent c famid fa0;
             mo = prefixParent c famid mo0;
             s1 = checkSex sex s;
             s2 = checkParents i fa mo s1
         in s2\<lparr>ids := ids s2 @ [i]\<rparr>))"

fun pedLoop :: "config \<Rightarrow> ingest \<Rightarrow> string list \<Rightarrow> fatal + ingest" where
  "pedLoop c s [] = Inr s"
| "pedLoop c s (l # ls) =
     (if length l \<noteq> recLen c then Inl (IncorrectRecordLength (NumInd s + 1))
      else if NumInd s = MAXIND then Inl (TooManyIndividuals MAXIND)
      else pedLoop c (pedRecord c s l) ls)"

definition ingest0 :: ingest where
  "ingest0 = \<lparr>ids = [], sexs = [], gens = [], idFam = [], famList = [], NumFou = 0, ErrCnt = 0\<rparr>"

definition getPedData :: "config \<Rightarrow> string list \<Rightarrow> fatal + ingest" where
  "getPedData c ls =
     (case pedLoop c ingest0 ls of
        Inl e \<Rightarrow> Inl e
      | Inr s \<Rightarrow> if ErrCnt s \<noteq> 0 then Inl (DataErrorsFound (ErrCnt s) ERRFILE) else Inr s)"

text \<open>The number of validation errors the claim attributes to the parents of a record.\<close>

definition parentErrors :: "string \<Rightarrow> string \<Rightarrow> string \<Rightarrow> nat" where
  "parentErrors i fa mo =
     (if unknown fa \<and> unknown mo then 0
      else (if unknown fa \<or> unknown mo then 1 else 0) + (if i = fa then 1 else 0)
         + (if i = mo then 1 else 0) + (if fa = mo then 1 else 0))"

definition sexErrors :: "string \<Rightarrow> nat" where
  "sexErrors sex = (if sexCode (sexChar sex) = None then 1 else 0)"

definition recordErrors :: "config \<Rightarrow> string \<Rightarrow> nat" where
  "recordErrors c l =
     (case scanRec c l of (famid, id0, fa0, mo0, sex) \<Rightarrow>
        sexErrors sex
        + parentErrors (prefixId c famid id0) (prefixParent c famid fa0) (prefixParent c famid mo0))"

lemma unknown_iff: "unknown p \<longleftrightarrow> set p \<subseteq> {CHR '' '', CHR 0x09, CHR ''0''}"
  by (induction p) auto

lemma ErrCnt_checkSex: "ErrCnt (checkSex sex s) = ErrCnt s + sexErrors sex"
  by (simp add: checkSex_def sexErrors_def logError_def split: option.splits)

lemma ErrCnt_checkParents: "ErrCnt (checkParents i fa mo s) = ErrCnt s + parentErrors i fa mo"
  by (simp add: checkParents_def parentErrors_def logError_def Let_def)

lemma ErrCnt_pedRecord: "ErrCnt (pedRecord c s l) = ErrCnt s + recordErrors c l"
  by (simp add: pedRecord_def recordErrors_def Let_def ErrCnt_checkParents ErrCnt_checkSex
      split: prod.splits)

lemma NumInd_pedRecord: "NumInd (pedRecord c s l) = NumInd s + 1"
  by (simp add: pedRecord_def NumInd_def Let_def checkParents_def checkSex_def logError_def
      split: prod.splits option.splits)

lemma pedLoop_ErrCnt:
  "pedLoop c s ls = Inr s' \<Longrightarrow> ErrCnt s' = ErrCnt s + sum_list (map (recordErrors c) ls)"
proof (induction ls arbitrary: s)
  case Nil
  then show ?case by simp
next
  case (Cons l ls)
  from Cons.prems have "pedLoop c (pedRecord c s l) ls = Inr s'"
    by (simp split: if_splits)
  from Cons.IH [OF this] show ?case
    by (simp add: ErrCnt_pedRecord)
qed

lemma pedLoop_total:
  "\<forall>l \<in> set ls. length l = recLen c \<Longrightarrow> NumInd s + length ls \<le> MAXIND
   \<Longrightarrow> \<exists>s'. pedLoop c s ls = Inr s'"
proof (induction ls arbitrary: s)
  case Nil
  then show ?case by simp
next
  case (Cons l ls)
  have "NumInd (pedRecord c s l) + length ls \<le> MAXIND"
    using Cons.prems(2) by (simp add: NumInd_pedRecord)
  moreover have "\<forall>l \<in> set ls. length l = recLen c"
    using Cons.prems(1) by simp
  ultimately obtain s' where "pedLoop c (pedRecord c s l) ls = Inr s'"
    using Cons.IH by blast
  then show ?case
    using Cons.prems by simp
qed


text \<open>
  Claim C7. A parent id is unknown exactly when each of its characters is a blank, a tab
  or \<open>0\<close>. For a record with at least one known parent, \<open>checkParents\<close> records one
  error when only one parent is known, one when the father id is the individual's id,
  one when the mother id is, and one when father and mother id coincide; for a record
  with both parents unknown it records none. Errors only accumulate: a pass that meets
  no wrong record length and no overflow of \<open>MAXIND\<close> reads every record, its error
  count is the sum over all records, and \<open>getPedData\<close> then fails fatally, naming the
  error log \<open>ibdprep.err\<close>, exactly when that count is not zero.
\<close>

theorem getPedData_parent_validation:
  "(unknown p \<longleftrightarrow> (\<forall>ch \<in> set p. ch = CHR '' '' \<or> ch = CHR 0x09 \<or> ch = CHR ''0''))
   \<and> ErrCnt (checkParents i fa mo s) =
       ErrCnt s +
       (if unknown fa \<and> unknown mo then 0
        else (if unknown fa \<or> unknown mo then 1 else 0) + (if i = fa then 1 else 0)
           + (if i = mo then 1 else 0) + (if fa = mo then 1 else 0))
   \<and> ((\<forall>l \<in> set ls. length l = recLen c) \<and> length ls \<le> MAXIND \<longrightarrow>
        (\<exists>s'. pedLoop c ingest0 ls = Inr s'))
   \<and> (pedLoop c ingest0 ls = Inr s' \<longrightarrow>
        ErrCnt s' = sum_list (map (recordErrors c) ls)
        \<and> getPedData c ls =
            (if ErrCnt s' \<noteq> 0 then Inl (DataErrorsFound (ErrCnt s') ''ibdprep.err'') else Inr s'))"
proof -
  have a: "unknown p \<longleftrightarrow> (\<forall>ch \<in> set p. ch = CHR '' '' \<or> ch = CHR 0x09 \<or> ch = CHR ''0'')"
    by (auto simp: unknown_iff)
  have b: "ErrCnt (checkParents i fa mo s) =
       ErrCnt s +
       (if unknown fa \<and> unknown mo then 0
        else (if unknown fa \<or> unknown mo then 1 else 0) + (if i = fa then 1 else 0)
           + (if i = mo then 1 else 0) + (if fa = mo then 1 else 0))"
    using ErrCnt_checkParents [of i fa mo s] by (simp add: parentErrors_def)
  have c: "(\<forall>l \<in> set ls. length l = recLen c) \<and> length ls \<le> MAXIND \<longrightarrow>
        (\<exists>s'. pedLoop c ingest0 ls = Inr s')"
    using pedLoop_total [of ls c ingest0] by (simp add: NumInd_def ingest0_def)
  have d: "pedLoop c ingest0 ls = Inr s' \<longrightarrow>
        ErrCnt s' = sum_list (map (recordErrors c) ls)
        \<and> getPedData c ls =
            (if ErrCnt s' \<noteq> 0 then Inl (DataErrorsFound (ErrCnt s') ''ibdprep.err'') else Inr s')"
    using pedLoop_ErrCnt [of c ingest0 ls s']
    by (simp add: getPedData_def ERRFILE_def ingest0_def)
  from a b c d show ?thesis by blast
qed

text \<open>
  Two records of width 5 (id, father, mother, sex, newline): a founder, and an
  individual who is listed as its own father. The second record is the only one with
  an error, the pass reads both, and the run fails on the error count 1.
\<close>

definition cfg1 :: config where
  "cfg1 = \<lparr>FamidLen = 0, IdLen = 1, SexLen = 1, TwinIdLen = 0, HHIdLen = 0\<rparr>"

definition lines1 :: "string list" where
  "lines1 = [''a001'' @ [CHR 0x0A], ''bba1'' @ [CHR 0x0A]]"

theorem getPedData_parent_validation_witness:
  "unknown ''0 0''
   \<and> ErrCnt (checkParents ''b'' ''b'' ''a'' ingest0) = 1
   \<and> getPedData cfg1 lines1 = Inl (DataErrorsFound 1 ''ibdprep.err'')"
proof -
  have len: "(\<forall>l \<in> set lines1. length l = recLen cfg1) \<and> length lines1 \<le> MAXIND"
    by (simp add: lines1_def cfg1_def recLen_def MAXIND_def)
  note t = getPedData_parent_validation [of "''0 0''" "''b''" "''b''" "''a''" ingest0 lines1 cfg1]
  from t len obtain s' where s': "pedLoop cfg1 ingest0 lines1 = Inr s'"
    by blast
  have e: "sum_list (map (recordErrors cfg1) lines1) = 1"
    by (simp add: lines1_def cfg1_def recordErrors_def scanRec_def sexErrors_def sexChar_def
        sexCode_def parentErrors_def prefixId_def prefixParent_def)
  have g: "getPedData cfg1 lines1 = Inl (DataErrorsFound 1 ''ibdprep.err'')"
    using getPedData_parent_validation [of "''0 0''" "''b''" "''b''" "''a''" ingest0 lines1 cfg1 s'] s' e
    by simp
  have u: "unknown ''0 0''"
    using getPedData_parent_validation [of "''0 0''" "''b''" "''b''" "''a''" ingest0 lines1 cfg1 s']
    by simp
  have p: "ErrCnt (checkParents ''b'' ''b'' ''a'' ingest0) = 1"
    using getPedData_parent_validation [of "''0 0''" "''b''" "''b''" "''a''" ingest0 lines1 cfg1 s']
    by (simp add: ingest0_def)
  from u p g show ?thesis by blast
qed


section \<open>The pedigree model: individuals, families, pedigrees\<close>

text \<open>
  \<open>IndArray\<close>, \<open>FamArray\<close> and \<open>PedArray\<close> hold pointers to structs, and the structs
  point to each other. A pointer to an \<open>Ind\<close> is modelled by the index of that
  individual in \<open>IndArray\<close>, a pointer to a \<open>Fam\<close> by its index in \<open>FamArray\<close>, and
  \<open>NULL\<close> by \<open>None\<close>. The chain \<open>fam1\<close>, \<open>next\<close>, ... of the families of a pedigree is
  the list \<open>fams\<close>. The fields \<open>ped\<close> and \<open>gen\<close> are C ints, \<open>-1\<close> meaning unassigned.
\<close>

record Ind =
  fam :: "nat option"
  itwinid :: nat
  ped :: int
  gen :: int
  seq :: nat

record Fam =
  fa :: nat
  mo :: nat
  nkid :: nat
  fped :: int
  fseq :: nat

record Ped =
  fams :: "nat list"
  nfam :: nat
  nind :: nat
  nfou :: nat
  inbred :: bool
  hasloops :: bool
  nlbrk :: int

record pedstate =
  IndArray :: "Ind list"
  FamArray :: "Fam list"
  PedArray :: "Ped list"
  IndSort :: "nat list"
  IndSeq :: "nat list"

definition NInd :: "pedstate \<Rightarrow> nat" where
  "NInd st = length (IndArray st)"

definition NPed :: "pedstate \<Rightarrow> nat" where
  "NPed st = length (PedArray st)"

section \<open>ibdprep: generation numbers (makePeds, lines 1672 to 1696)\<close>

text \<open>
  One pass visits the individuals in the order of \<open>IndSort\<close>; an individual without a
  generation gets one as soon as both parents have theirs. \<open>genfnd\<close> starts at
  \<open>NumFou\<close>.
\<close>

definition genStep :: "nat \<Rightarrow> pedstate \<times> nat \<Rightarrow> pedstate \<times> nat" where
  "genStep i sg =
     (case sg of (st, genfnd) \<Rightarrow>
        (let k = IndSort st ! i; indp = IndArray st ! k in
         if gen indp < 0 then
           (let fgen = (case fam indp of Some f \<Rightarrow> gen (IndArray st ! fa (FamArray st ! f)) | None \<Rightarrow> 0);
                mgen = (case fam indp of Some f \<Rightarrow> gen (IndArray st ! mo (FamArray st ! f)) | None \<Rightarrow> 0)
            in if fgen \<ge> 0 \<and> mgen \<ge> 0
               then (st\<lparr>IndArray := (IndArray st)[k := indp\<lparr>gen := max fgen mgen + 1\<rparr>]\<rparr>, genfnd + 1)
               else (st, genfnd))
         else (st, genfnd)))"

definition genPass :: "pedstate \<Rightarrow> nat \<Rightarrow> pedstate \<times> nat" where
  "genPass st genfnd = fold genStep [0..<NInd st] (st, genfnd)"

lemma genStep_mono: "NInd (fst (genStep i sg)) = NInd (fst sg) \<and> snd sg \<le> snd (genStep i sg)"
  by (cases sg) (simp add: genStep_def Let_def NInd_def)

lemma genFold_mono: "NInd (fst (fold genStep xs sg)) = NInd (fst sg) \<and> snd sg \<le> snd (fold genStep xs sg)"
proof (induction xs arbitrary: sg)
  case Nil
  show ?case by simp
next
  case (Cons x xs)
  from Cons.IH [of "genStep x sg"] genStep_mono [of x sg] show ?case
    by (simp add: le_trans)
qed

lemma genPass_mono: "NInd (fst (genPass st g)) = NInd st" "g \<le> snd (genPass st g)"
  using genFold_mono [of "[0..<NInd st]" "(st, g)"] by (simp_all add: genPass_def)

function genLoop :: "pedstate \<Rightarrow> nat \<Rightarrow> fatal + pedstate" where
  "genLoop st genfnd =
     (if genfnd < NInd st then
        (let r = genPass st genfnd in
         if snd r = genfnd then Inl PedigreeErrorAssigningGenerations
         else genLoop (fst r) (snd r))
      else Inr st)"
  by pat_completeness auto
termination
proof (relation "measure (\<lambda>(st, g). NInd st - g)")
  show "wf (measure (\<lambda>(st, g). NInd st - g))" by simp
next
  fix st :: pedstate and genfnd :: nat and r
  assume a: "genfnd < NInd st" "r = genPass st genfnd" "snd r \<noteq> genfnd"
  have "genfnd < snd r"
    using genPass_mono(2) [of genfnd st] a by simp
  moreover have "NInd (fst r) = NInd st"
    using genPass_mono(1) a by simp
  ultimately show "((fst r, snd r), (st, genfnd)) \<in> measure (\<lambda>(st, g). NInd st - g)"
    using a(1) by (simp add: case_prod_beta)
qed

declare genLoop.simps [simp del]


text \<open>
  A state of the generation loop: every index of \<open>IndSort\<close> and every parent is in
  range; a founder has generation 0; a child is unassigned (\<open>-1\<close>) or has both parents
  assigned and lies one generation below the later of them; \<open>genfnd\<close> counts the
  individuals that are assigned.
\<close>

definition genState :: "pedstate \<Rightarrow> nat \<Rightarrow> bool" where
  "genState st genfnd \<longleftrightarrow>
     length (IndSort st) = NInd st
     \<and> (\<forall>i < NInd st. IndSort st ! i < NInd st)
     \<and> (\<forall>k < NInd st.
           (case fam (IndArray st ! k) of
              None \<Rightarrow> gen (IndArray st ! k) = 0
            | Some f \<Rightarrow>
                f < length (FamArray st)
                \<and> fa (FamArray st ! f) < NInd st \<and> mo (FamArray st ! f) < NInd st
                \<and> (gen (IndArray st ! k) = -1
                   \<or> 0 \<le> gen (IndArray st ! fa (FamArray st ! f))
                     \<and> 0 \<le> gen (IndArray st ! mo (FamArray st ! f))
                     \<and> gen (IndArray st ! k)
                         = max (gen (IndArray st ! fa (FamArray st ! f)))
                               (gen (IndArray st ! mo (FamArray st ! f))) + 1)))
     \<and> genfnd = length (filter (\<lambda>k. 0 \<le> gen (IndArray st ! k)) [0..<NInd st])"

text \<open>What the loop leaves alone: the families, the sort order and who belongs to which family.\<close>

definition sameFams :: "pedstate \<Rightarrow> pedstate \<Rightarrow> bool" where
  "sameFams st st' \<longleftrightarrow>
     FamArray st' = FamArray st \<and> IndSort st' = IndSort st \<and> NInd st' = NInd st
     \<and> (\<forall>k < NInd st. fam (IndArray st' ! k) = fam (IndArray st ! k))"

lemma sameFams_refl: "sameFams st st"
  by (simp add: sameFams_def)

lemma sameFams_trans: "sameFams a b \<Longrightarrow> sameFams b c \<Longrightarrow> sameFams a c"
  by (simp add: sameFams_def)

lemma count_update:
  assumes "k < n" "\<not> P k" "Q k" "\<And>j. j \<noteq> k \<Longrightarrow> Q j = P j"
  shows "length (filter Q [0..<n]) = length (filter P [0..<n]) + 1"
proof -
  have "[0..<n] = [0..<k] @ k # [Suc k..<n]"
    using assms(1) by (metis le_add1 less_imp_add_positive upt_add_eq_append upt_conv_Cons zero_le
        less_eq_nat.simps(1) Suc_leI upt_rec)
  moreover have "filter Q [0..<k] = filter P [0..<k]"
    using assms(4) by (intro filter_cong) auto
  moreover have "filter Q [Suc k..<n] = filter P [Suc k..<n]"
    using assms(4) by (intro filter_cong) auto
  ultimately show ?thesis using assms(2,3) by simp
qed


lemma genStep_state:
  assumes gs: "genState st g" and i: "i < NInd st"
  shows "genState (fst (genStep i (st, g))) (snd (genStep i (st, g)))
         \<and> sameFams st (fst (genStep i (st, g)))"
proof -
  let ?A = "IndArray st"
  define k where "k = IndSort st ! i"
  have k: "k < NInd st" using gs i by (simp add: genState_def k_def)
  have kl: "k < length ?A" using k by (simp add: NInd_def)
  note inv = gs [unfolded genState_def, THEN conjunct2, THEN conjunct2, THEN conjunct1, rule_format]
  show ?thesis
  proof (cases "gen (?A ! k) < 0")
    case False
    then have "genStep i (st, g) = (st, g)"
      by (simp add: genStep_def Let_def k_def)
    then show ?thesis using gs by (simp add: sameFams_refl)
  next
    case True
    then obtain f where f: "fam (?A ! k) = Some f"
      using inv [OF k] by (cases "fam (?A ! k)") auto
    define fgen where "fgen = gen (?A ! fa (FamArray st ! f))"
    define mgen where "mgen = gen (?A ! mo (FamArray st ! f))"
    show ?thesis
    proof (cases "0 \<le> fgen \<and> 0 \<le> mgen")
      case False
      then have "genStep i (st, g) = (st, g)"
        using True f by (auto simp: genStep_def Let_def k_def fgen_def mgen_def)
      then show ?thesis using gs by (simp add: sameFams_refl)
    next
      case pos: True
      define A' where "A' = ?A[k := (?A ! k)\<lparr>gen := max fgen mgen + 1\<rparr>]"
      define st' where "st' = st\<lparr>IndArray := A'\<rparr>"
      have e: "genStep i (st, g) = (st', g + 1)"
        using True f pos
        by (simp add: genStep_def Let_def k_def [symmetric] fgen_def mgen_def st'_def A'_def)
      have N': "NInd st' = NInd st" by (simp add: st'_def A'_def NInd_def)
      have fam': "\<And>j. j < NInd st \<Longrightarrow> fam (A' ! j) = fam (?A ! j)"
        using kl by (simp add: A'_def nth_list_update NInd_def)
      have gen_other: "\<And>j. j \<noteq> k \<Longrightarrow> gen (A' ! j) = gen (?A ! j)"
        by (simp add: A'_def)
      have gen_k: "gen (A' ! k) = max fgen mgen + 1"
        using kl by (simp add: A'_def)
      have gen_pos: "\<And>j. 0 \<le> gen (?A ! j) \<Longrightarrow> gen (A' ! j) = gen (?A ! j)"
        using True gen_other by (metis not_le)
      have sf: "sameFams st st'"
        using fam' by (simp add: sameFams_def st'_def N' [unfolded st'_def])
      have a: "\<forall>j < NInd st'.
           (case fam (IndArray st' ! j) of
              None \<Rightarrow> gen (IndArray st' ! j) = 0
            | Some f \<Rightarrow>
                f < length (FamArray st')
                \<and> fa (FamArray st' ! f) < NInd st' \<and> mo (FamArray st' ! f) < NInd st'
                \<and> (gen (IndArray st' ! j) = -1
                   \<or> 0 \<le> gen (IndArray st' ! fa (FamArray st' ! f))
                     \<and> 0 \<le> gen (IndArray st' ! mo (FamArray st' ! f))
                     \<and> gen (IndArray st' ! j)
                         = max (gen (IndArray st' ! fa (FamArray st' ! f)))
                               (gen (IndArray st' ! mo (FamArray st' ! f))) + 1))"
      proof (intro allI impI)
        fix j assume "j < NInd st'"
        then have j: "j < NInd st" by (simp add: N')
        show "case fam (IndArray st' ! j) of
              None \<Rightarrow> gen (IndArray st' ! j) = 0
            | Some f \<Rightarrow>
                f < length (FamArray st')
                \<and> fa (FamArray st' ! f) < NInd st' \<and> mo (FamArray st' ! f) < NInd st'
                \<and> (gen (IndArray st' ! j) = -1
                   \<or> 0 \<le> gen (IndArray st' ! fa (FamArray st' ! f))
                     \<and> 0 \<le> gen (IndArray st' ! mo (FamArray st' ! f))
                     \<and> gen (IndArray st' ! j)
                         = max (gen (IndArray st' ! fa (FamArray st' ! f)))
                               (gen (IndArray st' ! mo (FamArray st' ! f))) + 1)"
        proof (cases "fam (?A ! j)")
          case None
          then have "j \<noteq> k" using f by auto
          then show ?thesis
            using inv [OF j] None fam' [OF j] gen_other by (simp add: st'_def)
        next
          case (Some f')
          note ij = inv [OF j, unfolded Some, simplified]
          show ?thesis
          proof (cases "j = k")
            case True
            then have ff: "f' = f" using Some f by simp
            have "gen (A' ! fa (FamArray st ! f)) = fgen" "gen (A' ! mo (FamArray st ! f)) = mgen"
              using gen_pos pos by (simp_all add: fgen_def mgen_def)
            then show ?thesis
              using ij True ff gen_k pos Some fam' [OF j] by (simp add: st'_def N' [unfolded st'_def])
          next
            case False
            then have gj: "gen (A' ! j) = gen (?A ! j)" by (rule gen_other)
            show ?thesis
            proof (cases "gen (?A ! j) = -1")
              case True
              then show ?thesis
                using ij gj Some fam' [OF j] by (simp add: st'_def N' [unfolded st'_def])
            next
              case False
              then have p: "0 \<le> gen (?A ! fa (FamArray st ! f'))" "0 \<le> gen (?A ! mo (FamArray st ! f'))"
                  "gen (?A ! j) = max (gen (?A ! fa (FamArray st ! f'))) (gen (?A ! mo (FamArray st ! f'))) + 1"
                using ij by auto
              show ?thesis
                using ij gj Some fam' [OF j] p gen_pos [OF p(1)] gen_pos [OF p(2)]
                by (simp add: st'_def N' [unfolded st'_def])
            qed
          qed
        qed
      qed
      have c: "length (filter (\<lambda>j. 0 \<le> gen (A' ! j)) [0..<NInd st])
             = length (filter (\<lambda>j. 0 \<le> gen (?A ! j)) [0..<NInd st]) + 1"
      proof (rule count_update [OF k])
        show "\<not> 0 \<le> gen (?A ! k)" using True by simp
        show "0 \<le> gen (A' ! k)" using gen_k pos by (simp add: max_def)
        show "\<And>j. j \<noteq> k \<Longrightarrow> (0 \<le> gen (A' ! j)) = (0 \<le> gen (?A ! j))"
          by (simp add: gen_other)
      qed
      have g: "g = length (filter (\<lambda>j. 0 \<le> gen (?A ! j)) [0..<NInd st])"
        using gs by (simp add: genState_def)
      have r: "length (IndSort st') = NInd st'" "\<forall>i < NInd st'. IndSort st' ! i < NInd st'"
        using gs by (simp_all add: genState_def st'_def N' [unfolded st'_def])
      have "genState st' (g + 1)"
        unfolding genState_def using r a c g by (simp add: N') (simp add: st'_def)
      then show ?thesis using sf by (simp add: e)
    qed
  qed
qed


lemma genFold_state:
  "genState st g \<Longrightarrow> \<forall>i \<in> set xs. i < NInd st \<Longrightarrow>
   genState (fst (fold genStep xs (st, g))) (snd (fold genStep xs (st, g)))
   \<and> sameFams st (fst (fold genStep xs (st, g)))"
proof (induction xs arbitrary: st g)
  case Nil
  then show ?case by (simp add: sameFams_refl)
next
  case (Cons x xs)
  obtain st1 g1 where s1: "genStep x (st, g) = (st1, g1)" by (cases "genStep x (st, g)")
  have x: "x < NInd st" using Cons.prems(2) by simp
  from genStep_state [OF Cons.prems(1) x] s1
  have g1: "genState st1 g1" and sf: "sameFams st st1" by simp_all
  have "\<forall>i \<in> set xs. i < NInd st1"
    using Cons.prems(2) sf by (simp add: sameFams_def)
  from Cons.IH [OF g1 this] sf show ?case
    by (auto simp: s1 intro: sameFams_trans)
qed

lemma genPass_state:
  assumes "genState st g"
  shows "genState (fst (genPass st g)) (snd (genPass st g))" "sameFams st (fst (genPass st g))"
  using genFold_state [OF assms, of "[0..<NInd st]"] by (simp_all add: genPass_def)

lemma genLoop_state:
  "genState st g \<Longrightarrow> genLoop st g = Inr st' \<Longrightarrow>
     sameFams st st' \<and> genState st' (NInd st')"
proof (induction st g rule: genLoop.induct)
  case (1 st genfnd)
  show ?case
  proof (cases "genfnd < NInd st")
    case False
    then have e: "st' = st" using "1.prems"(2) by (simp add: genLoop.simps [of st genfnd])
    have "genfnd \<le> NInd st"
      using "1.prems"(1) by (simp add: genState_def) (metis diff_zero length_filter_le length_upt)
    with False have "genfnd = NInd st" by simp
    with "1.prems"(1) e show ?thesis by (simp add: sameFams_refl)
  next
    case True
    define r where "r = genPass st genfnd"
    have ne: "snd r \<noteq> genfnd" and rec: "genLoop (fst r) (snd r) = Inr st'"
      using "1.prems"(2) True by (auto simp: genLoop.simps [of st genfnd] r_def Let_def split: if_splits)
    have gr: "genState (fst r) (snd r)" and sr: "sameFams st (fst r)"
      using genPass_state [OF "1.prems"(1)] by (simp_all add: r_def)
    from "1.IH" [OF True r_def ne gr rec] sr show ?thesis
      by (auto intro: sameFams_trans)
  qed
qed

lemma filter_all_length:
  "length (filter P xs) = length xs \<Longrightarrow> \<forall>x \<in> set xs. P x"
  by (metis filter_id_conv length_filter_less not_less_iff_gr_or_eq filter_True)

text \<open>
  Claim C2. From any state of the loop (in particular the one after ingestion, where
  founders have generation 0, all others \<open>-1\<close>, and \<open>genfnd\<close> is the number of
  founders): if the loop ends successfully, every founder has generation 0 and every
  other individual has generation \<open>max(father.gen, mother.gen) + 1\<close>; and if some
  individual is unassigned and a full pass changes no generation, the run ends with
  the fatal pedigree error.
\<close>

theorem makePeds_generations:
  assumes "genState st genfnd"
  shows "(genLoop st genfnd = Inr st' \<longrightarrow>
           sameFams st st'
           \<and> (\<forall>k < NInd st.
                 (case fam (IndArray st ! k) of
                    None \<Rightarrow> gen (IndArray st' ! k) = 0
                  | Some f \<Rightarrow>
                      gen (IndArray st' ! k)
                        = max (gen (IndArray st' ! fa (FamArray st ! f)))
                              (gen (IndArray st' ! mo (FamArray st ! f))) + 1)))
       \<and> ((\<exists>k < NInd st. gen (IndArray st ! k) < 0)
           \<and> (\<forall>k < NInd st. gen (IndArray (fst (genPass st genfnd)) ! k) = gen (IndArray st ! k))
           \<longrightarrow> genLoop st genfnd = Inl PedigreeErrorAssigningGenerations)"
proof (intro conjI impI)
  assume ok: "genLoop st genfnd = Inr st'"
  from genLoop_state [OF assms ok] show sf: "sameFams st st'" by simp
  from genLoop_state [OF assms ok] have gs: "genState st' (NInd st')" by simp
  have N: "NInd st' = NInd st" using sf by (simp add: sameFams_def)
  have "length (filter (\<lambda>k. 0 \<le> gen (IndArray st' ! k)) [0..<NInd st']) = length [0..<NInd st']"
    using gs by (simp add: genState_def)
  from filter_all_length [OF this] have all: "\<And>k. k < NInd st \<Longrightarrow> 0 \<le> gen (IndArray st' ! k)"
    by (simp add: N)
  show "\<forall>k < NInd st.
                 (case fam (IndArray st ! k) of
                    None \<Rightarrow> gen (IndArray st' ! k) = 0
                  | Some f \<Rightarrow>
                      gen (IndArray st' ! k)
                        = max (gen (IndArray st' ! fa (FamArray st ! f)))
                              (gen (IndArray st' ! mo (FamArray st ! f))) + 1)"
  proof (intro allI impI)
    fix k assume k: "k < NInd st"
    have fk: "fam (IndArray st' ! k) = fam (IndArray st ! k)" "FamArray st' = FamArray st"
      using sf k by (simp_all add: sameFams_def)
    note inv = gs [unfolded genState_def, THEN conjunct2, THEN conjunct2, THEN conjunct1, rule_format,
        of k, unfolded N, OF k]
    show "case fam (IndArray st ! k) of
                    None \<Rightarrow> gen (IndArray st' ! k) = 0
                  | Some f \<Rightarrow>
                      gen (IndArray st' ! k)
                        = max (gen (IndArray st' ! fa (FamArray st ! f)))
                              (gen (IndArray st' ! mo (FamArray st ! f))) + 1"
      using inv all [OF k] fk by (auto split: option.splits)
  qed
next
  assume a: "(\<exists>k < NInd st. gen (IndArray st ! k) < 0)
           \<and> (\<forall>k < NInd st. gen (IndArray (fst (genPass st genfnd)) ! k) = gen (IndArray st ! k))"
  have g: "genfnd = length (filter (\<lambda>k. 0 \<le> gen (IndArray st ! k)) [0..<NInd st])"
    using assms by (simp add: genState_def)
  from a obtain k0 where k0: "k0 < NInd st" "gen (IndArray st ! k0) < 0" by blast
  have "length (filter (\<lambda>k. 0 \<le> gen (IndArray st ! k)) [0..<NInd st]) < length [0..<NInd st]"
  proof (rule length_filter_less)
    show "k0 \<in> set [0..<NInd st]" using k0 by simp
    show "\<not> 0 \<le> gen (IndArray st ! k0)" using k0 by simp
  qed
  then have lt: "genfnd < NInd st" using g by simp
  have "snd (genPass st genfnd)
      = length (filter (\<lambda>k. 0 \<le> gen (IndArray (fst (genPass st genfnd)) ! k)) [0..<NInd st])"
    using genPass_state(1) [OF assms] genPass_mono(1) [of st genfnd] by (simp add: genState_def)
  also have "\<dots> = length (filter (\<lambda>k. 0 \<le> gen (IndArray st ! k)) [0..<NInd st])"
    using a by (intro arg_cong [where f = length] filter_cong) auto
  finally have "snd (genPass st genfnd) = genfnd" using g by simp
  with lt show "genLoop st genfnd = Inl PedigreeErrorAssigningGenerations"
    by (simp add: genLoop.simps [of st genfnd] Let_def)
qed


text \<open>
  Two founders and their child, before generations are assigned; and an individual
  recorded as the child of a family of which it is the father.
\<close>

definition trio :: pedstate where
  "trio =
     \<lparr>IndArray = [\<lparr>fam = None, itwinid = 0, ped = -1, gen = 0, seq = 0\<rparr>,
                  \<lparr>fam = None, itwinid = 0, ped = -1, gen = 0, seq = 1\<rparr>,
                  \<lparr>fam = Some 0, itwinid = 0, ped = -1, gen = -1, seq = 2\<rparr>],
      FamArray = [\<lparr>fa = 0, mo = 1, nkid = 1, fped = -1, fseq = 0\<rparr>],
      PedArray = [], IndSort = [0, 1, 2], IndSeq = []\<rparr>"

definition ownFather :: pedstate where
  "ownFather =
     \<lparr>IndArray = [\<lparr>fam = Some 0, itwinid = 0, ped = -1, gen = -1, seq = 0\<rparr>,
                  \<lparr>fam = None, itwinid = 0, ped = -1, gen = 0, seq = 1\<rparr>],
      FamArray = [\<lparr>fa = 0, mo = 1, nkid = 1, fped = -1, fseq = 0\<rparr>],
      PedArray = [], IndSort = [0, 1], IndSeq = []\<rparr>"

lemmas gen_eval = genPass_def genStep_def NInd_def Let_def upt_rec [of _ "numeral _"]

theorem makePeds_generations_witness:
  "genState trio 2
   \<and> (\<exists>st'. genLoop trio 2 = Inr st' \<and> gen (IndArray st' ! 0) = 0 \<and> gen (IndArray st' ! 2) = 1)
   \<and> genState ownFather 1
   \<and> genLoop ownFather 1 = Inl PedigreeErrorAssigningGenerations"
proof -
  have g1: "genState trio 2"
    by (simp add: genState_def trio_def NInd_def less_Suc_eq upt_rec [of _ "numeral _"])
  have g2: "genState ownFather 1"
    by (simp add: genState_def ownFather_def NInd_def less_Suc_eq upt_rec [of _ "numeral _"])
  obtain st' where r: "genLoop trio 2 = Inr st'"
    by (simp add: genLoop.simps trio_def gen_eval)
  from makePeds_generations [OF g1, of st'] r
  have c: "\<forall>k < NInd trio.
                 (case fam (IndArray trio ! k) of
                    None \<Rightarrow> gen (IndArray st' ! k) = 0
                  | Some f \<Rightarrow>
                      gen (IndArray st' ! k)
                        = max (gen (IndArray st' ! fa (FamArray trio ! f)))
                              (gen (IndArray st' ! mo (FamArray trio ! f))) + 1)"
    by simp
  have a: "gen (IndArray st' ! 0) = 0" "gen (IndArray st' ! 1) = 0"
    using c [rule_format, of 0] c [rule_format, of 1] by (simp_all add: trio_def NInd_def)
  have b: "gen (IndArray st' ! 2) = 1"
    using c [rule_format, of 2] a by (simp add: trio_def NInd_def)
  have u: "\<exists>k < NInd ownFather. gen (IndArray ownFather ! k) < 0"
    by (rule exI [of _ 0]) (simp add: ownFather_def NInd_def)
  have n: "\<forall>k < NInd ownFather.
      gen (IndArray (fst (genPass ownFather 1)) ! k) = gen (IndArray ownFather ! k)"
    by (simp add: ownFather_def gen_eval)
  from makePeds_generations [OF g2, of st'] u n
  have e: "genLoop ownFather 1 = Inl PedigreeErrorAssigningGenerations" by blast
  from g1 g2 r a b e show ?thesis by blast
qed

section \<open>ibdprep: the kinship engine (calcKin2)\<close>

text \<open>
  \<open>calcKin2\<close> addresses individuals by their sequence number \<open>i\<close>, that is
  \<open>IndArray[IndSeq[i]]\<close>. The matrix \<open>kin2\<close> is lower triangular (row \<open>i\<close> has
  \<open>i + 1\<close> entries); off the diagonal the code always reads and writes
  \<open>kin2[max(a,b)][min(a,b)]\<close>. The entries are C floats. A float is modelled by the
  rational number it stands for, and an arithmetic operation by its exact result rounded
  to the type of the operation: IEEE 754 binary32 for \<open>float\<close>, binary64 for \<open>double\<close>,
  rounding to nearest, ties to even, every operation evaluated in its own type.
  Infinities and NaN are not modelled.
\<close>

subsection \<open>Rounding to float and to double\<close>

text \<open>
  \<open>ilog2 x\<close> is the exponent of the leading bit of a positive \<open>x\<close>. \<open>roundBin p emin\<close>
  rounds to \<open>p\<close> significant bits, with the spacing of the least normal exponent
  \<open>emin\<close> below it (the subnormal numbers).
\<close>

function expoUp :: "rat \<Rightarrow> int" where
  "expoUp x = (if 2 \<le> x then expoUp (x / 2) + 1 else 0)"
  by pat_completeness auto
termination
proof (relation "measure (\<lambda>x. nat \<lfloor>x\<rfloor>)")
  show "wf (measure (\<lambda>x::rat. nat \<lfloor>x\<rfloor>))" by simp
next
  fix x :: rat assume x: "2 \<le> x"
  have "\<lfloor>x / 2\<rfloor> < \<lfloor>x\<rfloor>" using x by (simp add: floor_less_iff) linarith
  moreover have "0 < \<lfloor>x\<rfloor>" using x by simp
  ultimately show "(x / 2, x) \<in> measure (\<lambda>x. nat \<lfloor>x\<rfloor>)" by simp
qed

function expoDown :: "rat \<Rightarrow> int" where
  "expoDown x = (if 0 < x \<and> x < 1 then expoDown (2 * x) - 1 else 0)"
  by pat_completeness auto
termination
proof (relation "measure (\<lambda>x. nat \<lfloor>1 / x\<rfloor>)")
  show "wf (measure (\<lambda>x::rat. nat \<lfloor>1 / x\<rfloor>))" by simp
next
  fix x :: rat assume x: "0 < x \<and> x < 1"
  define y where "y = 1 / x"
  have y: "1 < y" using x by (simp add: y_def)
  have e: "1 / (2 * x) = y / 2" by (simp add: y_def)
  have "y - 1 < of_int \<lfloor>y\<rfloor>" by linarith
  moreover have "(1::rat) \<le> of_int \<lfloor>y\<rfloor>" using y by simp
  ultimately have "y / 2 < of_int \<lfloor>y\<rfloor>" by linarith
  then have "\<lfloor>y / 2\<rfloor> < \<lfloor>y\<rfloor>" by (simp add: floor_less_iff)
  moreover have "0 < \<lfloor>y\<rfloor>" using y by simp
  ultimately show "(2 * x, x) \<in> measure (\<lambda>x. nat \<lfloor>1 / x\<rfloor>)"
    by (simp add: e y_def [symmetric])
qed

declare expoUp.simps [simp del] expoDown.simps [simp del]

definition ilog2 :: "rat \<Rightarrow> int" where
  "ilog2 x = (if 1 \<le> x then expoUp x else expoDown x)"

definition roundEven :: "rat \<Rightarrow> int" where
  "roundEven y =
     (if y - of_int \<lfloor>y\<rfloor> < 1 / 2 then \<lfloor>y\<rfloor>
      else if 1 / 2 < y - of_int \<lfloor>y\<rfloor> then \<lfloor>y\<rfloor> + 1
      else if even \<lfloor>y\<rfloor> then \<lfloor>y\<rfloor> else \<lfloor>y\<rfloor> + 1)"

definition roundBin :: "nat \<Rightarrow> int \<Rightarrow> rat \<Rightarrow> rat" where
  "roundBin p emin x =
     (let k = max (ilog2 \<bar>x\<bar>) emin - int p + 1 in
      if x = 0 then 0
      else if 0 \<le> k then sgn x * (of_int (roundEven (\<bar>x\<bar> / 2 ^ nat k)) * 2 ^ nat k)
      else sgn x * (of_int (roundEven (\<bar>x\<bar> * 2 ^ nat (- k))) / 2 ^ nat (- k)))"

definition toFloat :: "rat \<Rightarrow> rat" where
  "toFloat = roundBin 24 (-126)"

definition toDouble :: "rat \<Rightarrow> rat" where
  "toDouble = roundBin 53 (-1022)"

text \<open>
  The three expressions of \<open>calcKin2\<close> that store a \<open>float\<close>. The operands are
  \<open>float\<close>, so their sum and their products are rounded to \<open>float\<close>; the factors
  \<open>.5\<close> and \<open>.25\<close> and the sum with \<open>1\<close> are \<open>double\<close>; the store rounds to \<open>float\<close>.
\<close>

definition halfSum :: "rat \<Rightarrow> rat \<Rightarrow> rat" where
  "halfSum a b = toFloat (toDouble ((1 / 2) * toFloat (a + b)))"

definition selfCoef :: "rat \<Rightarrow> rat" where
  "selfCoef x = toFloat (toDouble (1 + toDouble ((1 / 2) * x)))"

definition quarterProd :: "rat \<Rightarrow> rat \<Rightarrow> rat \<Rightarrow> rat \<Rightarrow> rat" where
  "quarterProd a b c d = toFloat (toDouble ((1 / 4) * toFloat (toFloat (a * b) + toFloat (c * d))))"

lemma roundEven_nonneg: "0 \<le> y \<Longrightarrow> 0 \<le> roundEven y"
  by (simp add: roundEven_def)

lemma roundEven_ge: "of_int n \<le> y \<Longrightarrow> n \<le> roundEven y"
proof -
  assume "of_int n \<le> y"
  then have "n \<le> \<lfloor>y\<rfloor>" by (simp add: le_floor_iff)
  then show ?thesis by (simp add: roundEven_def)
qed

lemma roundBin_nonneg: "0 \<le> x \<Longrightarrow> 0 \<le> roundBin p emin x"
proof -
  assume x: "0 \<le> x"
  have a: "\<And>y. 0 \<le> y \<Longrightarrow> (0::rat) \<le> of_int (roundEven y)"
    using roundEven_nonneg by simp
  have b: "\<And>n. (0::rat) \<le> of_int (roundEven (x / 2 ^ n)) * 2 ^ n"
    using x by (intro mult_nonneg_nonneg a) simp_all
  have c: "\<And>n. (0::rat) \<le> of_int (roundEven (x * 2 ^ n)) / 2 ^ n"
    using x by (intro divide_nonneg_nonneg a mult_nonneg_nonneg) simp_all
  show ?thesis
  proof (cases "x = 0")
    case True
    then show ?thesis by (simp add: roundBin_def)
  next
    case False
    then have "sgn x = 1" "\<bar>x\<bar> = x" using x by simp_all
    then show ?thesis
      using b c by (simp add: roundBin_def Let_def)
  qed
qed

lemma expoUp_spec: "1 \<le> x \<Longrightarrow> 0 \<le> expoUp x \<and> 2 ^ nat (expoUp x) \<le> x"
proof (induction x rule: expoUp.induct)
  case (1 x)
  show ?case
  proof (cases "2 \<le> x")
    case True
    then have h: "1 \<le> x / 2" by simp
    note ih = "1.IH" [OF True h]
    have e: "expoUp x = expoUp (x / 2) + 1" using True by (subst expoUp.simps) simp
    have "nat (expoUp (x / 2) + 1) = Suc (nat (expoUp (x / 2)))" using ih by (simp add: nat_add_distrib)
    then have "(2::rat) ^ nat (expoUp x) = 2 * 2 ^ nat (expoUp (x / 2))" by (simp add: e)
    also have "\<dots> \<le> 2 * (x / 2)" using ih by simp
    finally show ?thesis using ih e by simp
  next
    case False
    then have "expoUp x = 0" by (subst expoUp.simps) simp
    with "1.prems" show ?thesis by simp
  qed
qed

lemma roundBin_ge_one:
  assumes x: "1 \<le> x" and p: "0 < p" and emin: "emin \<le> 0"
  shows "1 \<le> roundBin p emin x"
proof -
  note s = expoUp_spec [OF x]
  have ax: "\<bar>x\<bar> = x" using x by simp
  define k where "k = max (ilog2 x) emin - int p + 1"
  have e: "ilog2 x = expoUp x" using x by (simp add: ilog2_def)
  have k: "k = expoUp x - int p + 1" using s emin by (simp add: k_def e max_def)
  have sg: "sgn x = 1" using x by simp
  show ?thesis
  proof (cases "0 \<le> k")
    case True
    have "nat k \<le> nat (expoUp x)" using k p by simp
    then have "(2::rat) ^ nat k \<le> 2 ^ nat (expoUp x)" by (intro power_increasing) simp_all
    also have "\<dots> \<le> x" using s by simp
    finally have "(1::rat) \<le> x / 2 ^ nat k" by (simp add: pos_le_divide_eq)
    then have "of_int 1 \<le> x / 2 ^ nat k" by simp
    then have "1 \<le> roundEven (x / 2 ^ nat k)" by (rule roundEven_ge)
    then have "(1::rat) \<le> of_int (roundEven (x / 2 ^ nat k))" by simp
    moreover have "(1::rat) \<le> 2 ^ nat k" by simp
    ultimately have "(1::rat) * 1 \<le> of_int (roundEven (x / 2 ^ nat k)) * 2 ^ nat k"
      by (intro mult_mono) simp_all
    moreover have "roundBin p emin x = of_int (roundEven (x / 2 ^ nat k)) * 2 ^ nat k"
      using True x by (simp add: roundBin_def Let_def ax k_def)
    ultimately show ?thesis by simp
  next
    case False
    have "(of_int (2 ^ nat (- k)) :: rat) \<le> x * 2 ^ nat (- k)" using x by simp
    then have "2 ^ nat (- k) \<le> roundEven (x * 2 ^ nat (- k))" by (rule roundEven_ge)
    then have "(of_int (2 ^ nat (- k)) :: rat) \<le> of_int (roundEven (x * 2 ^ nat (- k)))"
      by (simp only: of_int_le_iff)
    then have "(1::rat) \<le> of_int (roundEven (x * 2 ^ nat (- k))) / 2 ^ nat (- k)"
      by (simp add: pos_le_divide_eq)
    moreover have "roundBin p emin x = of_int (roundEven (x * 2 ^ nat (- k))) / 2 ^ nat (- k)"
      using False x by (simp add: roundBin_def Let_def ax k_def)
    ultimately show ?thesis by simp
  qed
qed

lemma halfSum_nonneg: "0 \<le> a \<Longrightarrow> 0 \<le> b \<Longrightarrow> 0 \<le> halfSum a b"
  by (simp add: halfSum_def toFloat_def toDouble_def roundBin_nonneg)

lemma selfCoef_ge_one: "0 \<le> x \<Longrightarrow> 1 \<le> selfCoef x"
proof -
  assume x: "0 \<le> x"
  have "0 \<le> toDouble ((1 / 2) * x)" using x by (simp add: toDouble_def roundBin_nonneg)
  then have "1 \<le> 1 + toDouble ((1 / 2) * x)" by simp
  then have "1 \<le> toDouble (1 + toDouble ((1 / 2) * x))"
    unfolding toDouble_def by (intro roundBin_ge_one) simp_all
  then show ?thesis
    unfolding selfCoef_def toFloat_def by (intro roundBin_ge_one) simp_all
qed

lemma floor_rat_numeral: "\<lfloor>(numeral a :: rat) / numeral b\<rfloor> = numeral a div numeral b"
  using floor_divide_of_int_eq [of "numeral a" "numeral b", where ?'a = rat] by simp

lemmas fl_eval = halfSum_def selfCoef_def quarterProd_def toFloat_def toDouble_def roundBin_def
  roundEven_def ilog2_def Let_def expoUp.simps expoDown.simps floor_rat_numeral

subsection \<open>The computation\<close>

definition indSeq :: "pedstate \<Rightarrow> nat \<Rightarrow> Ind" where
  "indSeq st i = IndArray st ! (IndSeq st ! i)"

definition founder :: "pedstate \<Rightarrow> nat \<Rightarrow> bool" where
  "founder st i = (fam (indSeq st i) = None)"

text \<open>\<open>IndArray[IndSeq[i]]->fam->fa->seq\<close> and the same for the mother.\<close>

definition faSeq :: "pedstate \<Rightarrow> nat \<Rightarrow> nat" where
  "faSeq st i = seq (IndArray st ! fa (FamArray st ! the (fam (indSeq st i))))"

definition moSeq :: "pedstate \<Rightarrow> nat \<Rightarrow> nat" where
  "moSeq st i = seq (IndArray st ! mo (FamArray st ! the (fam (indSeq st i))))"

type_synonym matrix = "nat \<Rightarrow> nat \<Rightarrow> rat"

definition tri :: "matrix \<Rightarrow> nat \<Rightarrow> nat \<Rightarrow> rat" where
  "tri K a b = K (max a b) (min a b)"

definition setTri :: "matrix \<Rightarrow> nat \<Rightarrow> nat \<Rightarrow> rat \<Rightarrow> matrix" where
  "setTri K a b v = K(max a b := (K (max a b))(min a b := v))"

text \<open>
  Lines 2133 to 2146: \<open>itwin[i]\<close> is the first sequence number that carries the twin id
  of \<open>i\<close>; \<open>twin1\<close> remembers it per twin id (\<open>None\<close> for \<open>-1\<close>).
\<close>

definition twinStep :: "pedstate \<Rightarrow> nat \<Rightarrow> (nat \<Rightarrow> nat option) \<times> (nat \<Rightarrow> nat)
    \<Rightarrow> (nat \<Rightarrow> nat option) \<times> (nat \<Rightarrow> nat)" where
  "twinStep st i tw =
     (case tw of (twin1, itwin) \<Rightarrow>
        (let t = itwinid (indSeq st i) in
         if t \<noteq> 0 then
           (case twin1 (t - 1) of
              Some k \<Rightarrow> (twin1, itwin(i := k))
            | None \<Rightarrow> (twin1(t - 1 := Some i), itwin(i := i)))
         else (twin1, itwin(i := i))))"

definition twinReps :: "pedstate \<Rightarrow> nat \<Rightarrow> nat" where
  "twinReps st = snd (fold (twinStep st) [0..<NInd st] (\<lambda>_. None, \<lambda>_. 0))"

text \<open>Lines 2148 to 2160: the matrix is zero but for the founders' diagonal.\<close>

definition kinInit :: "pedstate \<Rightarrow> matrix" where
  "kinInit st = (\<lambda>i j. if i = j \<and> founder st i then 1 else 0)"

definition countInit :: "pedstate \<Rightarrow> nat" where
  "countInit st = length (filter (founder st) [0..<NInd st])"

definition nReps :: "pedstate \<Rightarrow> (nat \<Rightarrow> nat) \<Rightarrow> nat" where
  "nReps st itwin = length (filter (\<lambda>i. itwin i = i) [0..<NInd st])"

text \<open>Lines 2169 to 2174: the cross terms of \<open>i\<close> with every \<open>j\<close> that is done.\<close>

definition kinCross :: "(nat \<Rightarrow> nat) \<Rightarrow> nat \<Rightarrow> nat \<Rightarrow> nat \<Rightarrow> nat \<Rightarrow> matrix \<Rightarrow> matrix" where
  "kinCross itwin i ifa imo j K =
     (if itwin j \<noteq> j \<or> K j j = 0 then K
      else setTri K i j (halfSum (tri K ifa j) (tri K imo j)))"

text \<open>Lines 2163 to 2177: one individual of the sweep.\<close>

definition kinStep :: "pedstate \<Rightarrow> (nat \<Rightarrow> nat) \<Rightarrow> nat \<Rightarrow> matrix \<times> nat \<Rightarrow> matrix \<times> nat" where
  "kinStep st itwin i kc =
     (case kc of (K, cnt) \<Rightarrow>
        if itwin i \<noteq> i \<or> K i i \<noteq> 0 then (K, cnt)
        else if founder st i then (K, cnt)
        else
          (let ifa = itwin (faSeq st i); imo = itwin (moSeq st i) in
           if K ifa ifa = 0 \<or> K imo imo = 0 then (K, cnt)
           else
             (let K1 = fold (kinCross itwin i ifa imo) [0..<NInd st] K
              in (K1(i := (K1 i)(i := selfCoef (tri K1 ifa imo))), cnt + 1))))"

definition kinSweep :: "pedstate \<Rightarrow> (nat \<Rightarrow> nat) \<Rightarrow> matrix \<times> nat \<Rightarrow> matrix \<times> nat" where
  "kinSweep st itwin kc = fold (kinStep st itwin) [0..<NInd st] kc"

text \<open>
  The \<open>do ... while (count < n)\<close> around the sweep. It need not stop (an individual
  whose parents never get a row is never counted), so not returning is \<open>None\<close>.
\<close>

partial_function (option) kinLoop :: "pedstate \<Rightarrow> (nat \<Rightarrow> nat) \<Rightarrow> nat \<Rightarrow> matrix \<times> nat
    \<Rightarrow> (matrix \<times> nat) option" where
  "kinLoop st itwin n kc =
     (let kc' = kinSweep st itwin kc in
      if snd kc' < n then kinLoop st itwin n kc' else Some kc')"

text \<open>Lines 2180 to 2184: every individual gets the row of its twin representative.\<close>

definition expandCell :: "(nat \<Rightarrow> nat) \<Rightarrow> nat \<Rightarrow> nat \<Rightarrow> matrix \<Rightarrow> matrix" where
  "expandCell itwin i j K = K(i := (K i)(j := tri K (itwin i) (itwin j)))"

definition expandRow :: "(nat \<Rightarrow> nat) \<Rightarrow> nat \<Rightarrow> matrix \<Rightarrow> matrix" where
  "expandRow itwin i K =
     (let K1 = fold (expandCell itwin i) [0..<i] K
      in K1(i := (K1 i)(i := K1 (itwin i) (itwin i))))"

definition expand :: "pedstate \<Rightarrow> (nat \<Rightarrow> nat) \<Rightarrow> matrix \<Rightarrow> matrix" where
  "expand st itwin K = fold (expandRow itwin) [0..<NInd st] K"

text \<open>Lines 2197 to 2213: the value of \<open>delta7\<close> for the pair \<open>i\<close>, \<open>j\<close>.\<close>

definition delta7 :: "pedstate \<Rightarrow> (nat \<Rightarrow> nat) \<Rightarrow> matrix \<Rightarrow> nat \<Rightarrow> nat \<Rightarrow> rat" where
  "delta7 st itwin K i j =
     (if itwin i = itwin j then 1
      else if fam (indSeq st i) \<noteq> None \<and> fam (indSeq st j) \<noteq> None then
        (let ifa = faSeq st i; imo = moSeq st i; jfa = faSeq st j; jmo = moSeq st j
         in quarterProd (tri K ifa jfa) (tri K imo jmo)
                 (tri K ifa jmo) (tri K imo jfa))
      else 0)"

text \<open>
  Lines 2192 to 2221: the lines written to the file \<open>phi2\<close> for row \<open>i\<close>, each as
  (first id, second id, kinship, delta7) with the ids counted from one.
\<close>

definition phi2Row :: "pedstate \<Rightarrow> (nat \<Rightarrow> nat) \<Rightarrow> matrix \<Rightarrow> nat \<Rightarrow> (nat \<times> nat \<times> rat \<times> rat) list" where
  "phi2Row st itwin K i =
     map (\<lambda>j. (i + 1, j + 1, K i j, delta7 st itwin K i j))
       (filter (\<lambda>j. ped (indSeq st i) = ped (indSeq st j) \<and> K i j \<noteq> 0) [0..<i])
     @ [(i + 1, i + 1, K i i, 1)]"

definition phi2File :: "pedstate \<Rightarrow> (nat \<Rightarrow> nat) \<Rightarrow> matrix \<Rightarrow> (nat \<times> nat \<times> rat \<times> rat) list" where
  "phi2File st itwin K = concat (map (phi2Row st itwin K) [0..<NInd st])"

text \<open>Lines 2186 to 2188 and 2223 to 2226: the inbreeding flags.\<close>

definition clearInbred :: "Ped list \<Rightarrow> Ped list" where
  "clearInbred ps = map (\<lambda>p. p\<lparr>inbred := False\<rparr>) ps"

definition flagStep :: "pedstate \<Rightarrow> matrix \<Rightarrow> nat \<Rightarrow> Ped list \<times> bool \<Rightarrow> Ped list \<times> bool" where
  "flagStep st K i pf =
     (case pf of (ps, isInbred) \<Rightarrow>
        if K i i > 1
        then (ps[nat (ped (indSeq st i)) := (ps ! nat (ped (indSeq st i)))\<lparr>inbred := True\<rparr>], True)
        else (ps, isInbred))"

definition flagInbred :: "pedstate \<Rightarrow> matrix \<Rightarrow> Ped list \<times> bool" where
  "flagInbred st K = fold (flagStep st K) [0..<NInd st] (clearInbred (PedArray st), False)"

record kinship =
  kin2 :: matrix
  itwin :: "nat \<Rightarrow> nat"
  phi2 :: "(nat \<times> nat \<times> rat \<times> rat) list"
  peds :: "Ped list"
  isInbred :: bool

definition calcKin2 :: "pedstate \<Rightarrow> kinship option" where
  "calcKin2 st =
     (let tw = twinReps st in
      case kinLoop st tw (nReps st tw) (kinInit st, countInit st) of
        None \<Rightarrow> None
      | Some (K0, cnt) \<Rightarrow>
          (let K = expand st tw K0; pf = flagInbred st K
           in Some \<lparr>kin2 = K, itwin = tw, phi2 = phi2File st tw K, peds = fst pf,
                    isInbred = snd pf\<rparr>))"

lemma kinLoop_once:
  "\<not> snd (kinSweep st tw kc) < n \<Longrightarrow> kinLoop st tw n kc = Some (kinSweep st tw kc)"
  by (subst kinLoop.simps) (simp add: Let_def)

lemma length_clearInbred: "length (clearInbred ps) = length ps"
  by (simp add: clearInbred_def)

lemma flag_fold:
  "\<forall>i \<in> set xs. 0 \<le> ped (indSeq st i) \<and> nat (ped (indSeq st i)) < length ps \<Longrightarrow>
   p < length ps \<Longrightarrow>
   length (fst (fold (flagStep st K) xs (ps, b))) = length ps
   \<and> (inbred (fst (fold (flagStep st K) xs (ps, b)) ! p) \<longleftrightarrow>
        inbred (ps ! p) \<or> (\<exists>i \<in> set xs. ped (indSeq st i) = int p \<and> K i i > 1))
   \<and> (snd (fold (flagStep st K) xs (ps, b)) \<longleftrightarrow> b \<or> (\<exists>i \<in> set xs. K i i > 1))"
proof (induction xs arbitrary: ps b)
  case Nil
  then show ?case by simp
next
  case (Cons x xs)
  obtain ps1 b1 where s1: "flagStep st K x (ps, b) = (ps1, b1)"
    by (cases "flagStep st K x (ps, b)")
  have len: "length ps1 = length ps"
    using s1 by (auto simp: flagStep_def split: if_splits)
  have xr: "0 \<le> ped (indSeq st x)" "nat (ped (indSeq st x)) < length ps"
    using Cons.prems(1) by auto
  have p1: "inbred (ps1 ! p) \<longleftrightarrow> inbred (ps ! p) \<or> (ped (indSeq st x) = int p \<and> K x x > 1)"
  proof (cases "K x x > 1")
    case True
    then have e: "ps1 = ps[nat (ped (indSeq st x)) := (ps ! nat (ped (indSeq st x)))\<lparr>inbred := True\<rparr>]"
      using s1 by (simp add: flagStep_def)
    show ?thesis
    proof (cases "nat (ped (indSeq st x)) = p")
      case True
      with e xr \<open>K x x > 1\<close> show ?thesis by auto
    next
      case False
      with e xr show ?thesis by auto
    qed
  next
    case False
    then show ?thesis using s1 by (simp add: flagStep_def)
  qed
  have b1: "b1 \<longleftrightarrow> b \<or> K x x > 1"
    using s1 by (auto simp: flagStep_def split: if_splits)
  have "\<forall>i \<in> set xs. 0 \<le> ped (indSeq st i) \<and> nat (ped (indSeq st i)) < length ps1"
    using Cons.prems(1) len by simp
  from Cons.IH [OF this, of b1] Cons.prems(2) len
  have ih: "length (fst (fold (flagStep st K) xs (ps1, b1))) = length ps1"
    "inbred (fst (fold (flagStep st K) xs (ps1, b1)) ! p) \<longleftrightarrow>
        inbred (ps1 ! p) \<or> (\<exists>i \<in> set xs. ped (indSeq st i) = int p \<and> K i i > 1)"
    "snd (fold (flagStep st K) xs (ps1, b1)) \<longleftrightarrow> b1 \<or> (\<exists>i \<in> set xs. K i i > 1)"
    by simp_all
  show ?case
    using ih p1 b1 len by (auto simp: s1)
qed

lemma flagInbred_iff:
  assumes "\<forall>i < NInd st. 0 \<le> ped (indSeq st i) \<and> nat (ped (indSeq st i)) < NPed st"
    and "p < NPed st"
  shows "inbred (fst (flagInbred st K) ! p) \<longleftrightarrow>
           (\<exists>i < NInd st. ped (indSeq st i) = int p \<and> K i i > 1)"
    and "snd (flagInbred st K) \<longleftrightarrow> (\<exists>i < NInd st. K i i > 1)"
    and "length (fst (flagInbred st K)) = NPed st"
proof -
  have a: "\<forall>i \<in> set [0..<NInd st]. 0 \<le> ped (indSeq st i)
      \<and> nat (ped (indSeq st i)) < length (clearInbred (PedArray st))"
    using assms(1) by (simp add: length_clearInbred NPed_def)
  have b: "p < length (clearInbred (PedArray st))"
    using assms(2) by (simp add: length_clearInbred NPed_def)
  have c: "\<not> inbred (clearInbred (PedArray st) ! p)"
    using assms(2) by (simp add: clearInbred_def NPed_def)
  note f = flag_fold [OF a b, of K False]
  show "inbred (fst (flagInbred st K) ! p) \<longleftrightarrow>
           (\<exists>i < NInd st. ped (indSeq st i) = int p \<and> K i i > 1)"
    using f c by (auto simp: flagInbred_def)
  show "snd (flagInbred st K) \<longleftrightarrow> (\<exists>i < NInd st. K i i > 1)"
    using f by (auto simp: flagInbred_def)
  show "length (fst (flagInbred st K)) = NPed st"
    using f by (simp add: flagInbred_def length_clearInbred NPed_def)
qed

lemma calcKin2_Some:
  assumes "calcKin2 st = Some r"
  shows "peds r = fst (flagInbred st (kin2 r))"
    and "isInbred r = snd (flagInbred st (kin2 r))"
    and "phi2 r = phi2File st (itwin r) (kin2 r)"
    and "itwin r = twinReps st"
    and "\<exists>kc. kinLoop st (twinReps st) (nReps st (twinReps st)) (kinInit st, countInit st) = Some kc
          \<and> kin2 r = expand st (twinReps st) (fst kc)"
  using assms by (auto simp: calcKin2_def Let_def split: option.splits prod.splits)

lemma phi2File_mem:
  assumes "j < i" "i < NInd st"
  shows "(i + 1, j + 1, k, d) \<in> set (phi2File st tw K) \<longleftrightarrow>
     ped (indSeq st i) = ped (indSeq st j) \<and> K i j \<noteq> 0 \<and> k = K i j \<and> d = delta7 st tw K i j"
proof -
  have "(i + 1, j + 1, k, d) \<in> set (phi2File st tw K) \<longleftrightarrow>
        (i + 1, j + 1, k, d) \<in> set (phi2Row st tw K i)"
    using assms(2) by (auto simp: phi2File_def phi2Row_def)
  also have "\<dots> \<longleftrightarrow> ped (indSeq st i) = ped (indSeq st j) \<and> K i j \<noteq> 0 \<and> k = K i j
        \<and> d = delta7 st tw K i j"
    using assms(1) by (auto simp: phi2Row_def)
  finally show ?thesis .
qed

subsection \<open>The recurrence computed by the sweep\<close>

text \<open>
  \<open>itwin\<close> maps every individual to an earlier or equal one that is its own
  representative.
\<close>

definition twinInv :: "nat \<Rightarrow> (nat \<Rightarrow> nat option) \<times> (nat \<Rightarrow> nat) \<Rightarrow> bool" where
  "twinInv m tw \<longleftrightarrow>
     (\<forall>i < m. snd tw i \<le> i \<and> snd tw (snd tw i) = snd tw i)
     \<and> (\<forall>t k. fst tw t = Some k \<longrightarrow> k < m \<and> snd tw k = k)"

lemma twinStep_inv:
  assumes "twinInv m tw"
  shows "twinInv (Suc m) (twinStep st m tw)"
proof -
  obtain tw1 itw where tw: "tw = (tw1, itw)" by (cases tw)
  have a: "\<forall>i < m. itw i \<le> i \<and> itw (itw i) = itw i"
    and b: "\<forall>t k. tw1 t = Some k \<longrightarrow> k < m \<and> itw k = k"
    using assms by (auto simp: twinInv_def tw)
  let ?t = "itwinid (indSeq st m)"
  show ?thesis
  proof (cases "?t \<noteq> 0 \<and> tw1 (?t - 1) \<noteq> None")
    case True
    then obtain k where k: "tw1 (?t - 1) = Some k" by auto
    with b have km: "k < m" "itw k = k" by auto
    have e: "twinStep st m tw = (tw1, itw(m := k))"
      using True k by (simp add: twinStep_def tw Let_def)
    have "\<forall>i < Suc m. (itw(m := k)) i \<le> i \<and> (itw(m := k)) ((itw(m := k)) i) = (itw(m := k)) i"
    proof (intro allI impI)
      fix i assume "i < Suc m"
      show "(itw(m := k)) i \<le> i \<and> (itw(m := k)) ((itw(m := k)) i) = (itw(m := k)) i"
      proof (cases "i = m")
        case True
        then show ?thesis using km by auto
      next
        case False
        with \<open>i < Suc m\<close> have im: "i < m" by simp
        with a have "itw i \<le> i" "itw (itw i) = itw i" by auto
        with im show ?thesis by auto
      qed
    qed
    moreover have "\<forall>t k'. tw1 t = Some k' \<longrightarrow> k' < Suc m \<and> (itw(m := k)) k' = k'"
      using b by (auto simp: less_Suc_eq)
    ultimately show ?thesis by (simp add: e twinInv_def)
  next
    case False
    have "\<forall>i < Suc m. (itw(m := m)) i \<le> i \<and> (itw(m := m)) ((itw(m := m)) i) = (itw(m := m)) i"
    proof (intro allI impI)
      fix i assume "i < Suc m"
      show "(itw(m := m)) i \<le> i \<and> (itw(m := m)) ((itw(m := m)) i) = (itw(m := m)) i"
      proof (cases "i = m")
        case True
        then show ?thesis by auto
      next
        case False
        with \<open>i < Suc m\<close> have im: "i < m" by simp
        with a have "itw i \<le> i" "itw (itw i) = itw i" by auto
        with im show ?thesis by auto
      qed
    qed
    moreover have "\<forall>t k'. tw1 t = Some k' \<longrightarrow> k' < Suc m \<and> (itw(m := m)) k' = k'"
      using b by (auto simp: less_Suc_eq)
    moreover have "\<forall>t k'. (tw1(?t - 1 := Some m)) t = Some k' \<longrightarrow> k' < Suc m \<and> (itw(m := m)) k' = k'"
      using b by (auto simp: less_Suc_eq)
    ultimately show ?thesis
      using False by (auto simp: twinStep_def tw Let_def twinInv_def split: option.splits)
  qed
qed

lemma twin_fold_inv: "twinInv n (fold (twinStep st) [0..<n] (\<lambda>_. None, \<lambda>_. 0))"
proof (induction n)
  case 0
  show ?case by (simp add: twinInv_def)
next
  case (Suc n)
  then show ?case by (simp add: twinStep_inv)
qed

lemma twinReps_le: "i < NInd st \<Longrightarrow> twinReps st i \<le> i"
  and twinReps_idem: "i < NInd st \<Longrightarrow> twinReps st (twinReps st i) = twinReps st i"
  using twin_fold_inv [of "NInd st" st] by (auto simp: twinReps_def twinInv_def)


text \<open>
  The cross terms written while \<open>m\<close> is processed: the entries that pair \<open>m\<close> with a
  representative \<open>j\<close> whose row exists (\<open>kin2[j][j] != 0\<close>); every entry they read
  lies outside row and column \<open>m\<close>.
\<close>

definition crossed :: "(nat \<Rightarrow> nat) \<Rightarrow> matrix \<Rightarrow> nat \<Rightarrow> nat \<Rightarrow> nat \<Rightarrow> bool" where
  "crossed tw K m n j \<longleftrightarrow> j < n \<and> j \<noteq> m \<and> tw j = j \<and> K j j \<noteq> 0"

lemma kinCross_fold:
  assumes "K m m = 0" "ifa \<noteq> m" "imo \<noteq> m"
  shows "fold (kinCross tw m ifa imo) [0..<n] K =
    (\<lambda>a b. if a = m \<and> b < m \<and> crossed tw K m n b then halfSum (tri K ifa b) (tri K imo b)
           else if b = m \<and> m < a \<and> crossed tw K m n a then halfSum (tri K ifa a) (tri K imo a)
           else K a b)"
proof (induction n)
  case 0
  show ?case by (simp add: crossed_def)
next
  case (Suc n)
  let ?Kn = "fold (kinCross tw m ifa imo) [0..<n] K"
  have diag: "?Kn n n = K n n"
    using assms(1) by (simp add: Suc.IH crossed_def)
  have rd: "n \<noteq> m \<Longrightarrow> tri ?Kn ifa n = tri K ifa n \<and> tri ?Kn imo n = tri K imo n"
    using assms(2,3) by (auto simp: Suc.IH tri_def max_def min_def)
  have step: "fold (kinCross tw m ifa imo) [0..<Suc n] K = kinCross tw m ifa imo n ?Kn"
    by simp
  show ?case
  proof (cases "crossed tw K m (Suc n) n")
    case False
    then have skip: "tw n \<noteq> n \<or> K n n = 0 \<or> n = m"
      by (auto simp: crossed_def)
    have "kinCross tw m ifa imo n ?Kn = ?Kn"
      using skip diag assms(1) by (auto simp: kinCross_def)
    moreover have "\<And>j. crossed tw K m (Suc n) j = crossed tw K m n j"
      using False by (auto simp: crossed_def less_Suc_eq)
    ultimately show ?thesis
      by (simp only: step Suc.IH)
  next
    case True
    then have go: "tw n = n" "K n n \<noteq> 0" "n \<noteq> m"
      by (auto simp: crossed_def)
    have k: "kinCross tw m ifa imo n ?Kn = setTri ?Kn m n (halfSum (tri K ifa n) (tri K imo n))"
      using go diag rd by (simp add: kinCross_def)
    have c: "\<And>j. crossed tw K m (Suc n) j \<longleftrightarrow> crossed tw K m n j \<or> j = n"
      using True by (auto simp: crossed_def less_Suc_eq)
    show ?thesis
      unfolding step k
      apply (rule ext, rule ext)
      using go
      apply (auto simp: setTri_def Suc.IH c max_def min_def crossed_def)
      done
  qed
qed


text \<open>
  The order of the sequence numbers (pedigree, then generation) puts both parents of an
  individual before it.
\<close>

definition parentsFirst :: "pedstate \<Rightarrow> bool" where
  "parentsFirst st \<longleftrightarrow> (\<forall>i < NInd st. \<not> founder st i \<longrightarrow> faSeq st i < i \<and> moSeq st i < i)"

text \<open>
  The state of the sweep when it reaches \<open>m\<close>: a representative has a row exactly when
  it is a founder or lies before \<open>m\<close>, two founders have the coefficient 0, and the
  rows written so far satisfy the recurrence.
\<close>

definition kinInv :: "pedstate \<Rightarrow> (nat \<Rightarrow> nat) \<Rightarrow> nat \<Rightarrow> matrix \<times> nat \<Rightarrow> bool" where
  "kinInv st tw m kc \<longleftrightarrow>
     (\<forall>a b. 0 \<le> fst kc a b)
     \<and> (\<forall>j < NInd st. tw j = j \<longrightarrow> (fst kc j j \<noteq> 0 \<longleftrightarrow> founder st j \<or> j < m))
     \<and> (\<forall>i < NInd st. founder st i \<longrightarrow> fst kc i i = 1)
     \<and> (\<forall>a b. founder st a \<and> founder st b \<and> a \<noteq> b \<longrightarrow> fst kc a b = 0)
     \<and> (\<forall>i < m. tw i = i \<and> \<not> founder st i \<longrightarrow>
           fst kc i i = selfCoef (tri (fst kc) (tw (faSeq st i)) (tw (moSeq st i)))
         \<and> (\<forall>j < NInd st. tw j = j \<and> (founder st j \<or> j < i) \<longrightarrow>
              tri (fst kc) i j
                = halfSum (tri (fst kc) (tw (faSeq st i)) j) (tri (fst kc) (tw (moSeq st i)) j)))
     \<and> snd kc = countInit st + length (filter (\<lambda>i. tw i = i \<and> \<not> founder st i) [0..<m])"

lemma kinInv_init: "kinInv st tw 0 (kinInit st, countInit st)"
  by (simp add: kinInv_def kinInit_def)

lemma tri_away: "(\<And>a b. a \<noteq> m \<Longrightarrow> b \<noteq> m \<Longrightarrow> K' a b = K a b) \<Longrightarrow> x \<noteq> m \<Longrightarrow> y \<noteq> m
  \<Longrightarrow> tri K' x y = tri K x y"
  by (simp add: tri_def max_def min_def)

lemma kinStep_inv:
  assumes inv: "kinInv st tw m kc" and m: "m < NInd st" and pf: "parentsFirst st"
    and tw: "\<forall>i < NInd st. tw i \<le> i \<and> tw (tw i) = tw i"
  shows "kinInv st tw (Suc m) (kinStep st tw m kc)"
proof -
  obtain K cnt where kc: "kc = (K, cnt)" by (cases kc)
  have i0: "\<And>a b. 0 \<le> K a b"
    and i1: "\<And>j. j < NInd st \<Longrightarrow> tw j = j \<Longrightarrow> (K j j \<noteq> 0 \<longleftrightarrow> founder st j \<or> j < m)"
    and i2: "\<And>i. i < NInd st \<Longrightarrow> founder st i \<Longrightarrow> K i i = 1"
    and i3: "\<And>i. i < m \<Longrightarrow> tw i = i \<Longrightarrow> \<not> founder st i \<Longrightarrow>
           K i i = selfCoef (tri K (tw (faSeq st i)) (tw (moSeq st i)))"
    and i4: "\<And>i j. i < m \<Longrightarrow> tw i = i \<Longrightarrow> \<not> founder st i \<Longrightarrow> j < NInd st \<Longrightarrow> tw j = j
           \<Longrightarrow> founder st j \<or> j < i \<Longrightarrow>
           tri K i j = halfSum (tri K (tw (faSeq st i)) j) (tri K (tw (moSeq st i)) j)"
    and i5: "cnt = countInit st + length (filter (\<lambda>i. tw i = i \<and> \<not> founder st i) [0..<m])"
    and i6: "\<And>a b. founder st a \<Longrightarrow> founder st b \<Longrightarrow> a \<noteq> b \<Longrightarrow> K a b = 0"
    using inv by (auto simp: kinInv_def kc)
  have par: "\<And>i. i < NInd st \<Longrightarrow> \<not> founder st i \<Longrightarrow>
      tw (faSeq st i) < i \<and> tw (moSeq st i) < i
      \<and> tw (tw (faSeq st i)) = tw (faSeq st i) \<and> tw (tw (moSeq st i)) = tw (moSeq st i)"
  proof -
    fix i assume i: "i < NInd st" "\<not> founder st i"
    with pf have "faSeq st i < i" "moSeq st i < i" by (auto simp: parentsFirst_def)
    moreover from this i have "faSeq st i < NInd st" "moSeq st i < NInd st" by auto
    ultimately show "tw (faSeq st i) < i \<and> tw (moSeq st i) < i
      \<and> tw (tw (faSeq st i)) = tw (faSeq st i) \<and> tw (tw (moSeq st i)) = tw (moSeq st i)"
      using tw by (meson le_less_trans)
  qed
  have cs: "length (filter (\<lambda>i. tw i = i \<and> \<not> founder st i) [0..<Suc m])
      = length (filter (\<lambda>i. tw i = i \<and> \<not> founder st i) [0..<m])
        + (if tw m = m \<and> \<not> founder st m then 1 else 0)"
    by simp
  show ?thesis
  proof (cases "tw m = m \<and> K m m = 0")
    case False
    then have e: "kinStep st tw m kc = (K, cnt)"
      by (auto simp: kinStep_def kc)
    have nf: "\<not> (tw m = m \<and> \<not> founder st m)"
      using False i1 [OF m] by auto
    have a1: "\<forall>j < NInd st. tw j = j \<longrightarrow> (K j j \<noteq> 0 \<longleftrightarrow> founder st j \<or> j < Suc m)"
      using i1 False by (auto simp: less_Suc_eq)
    have a3: "\<forall>i < Suc m. tw i = i \<and> \<not> founder st i \<longrightarrow>
           K i i = selfCoef (tri K (tw (faSeq st i)) (tw (moSeq st i)))
         \<and> (\<forall>j < NInd st. tw j = j \<and> (founder st j \<or> j < i) \<longrightarrow>
              tri K i j = halfSum (tri K (tw (faSeq st i)) j) (tri K (tw (moSeq st i)) j))"
      using i3 i4 nf by (auto simp: less_Suc_eq)
    show ?thesis
      unfolding e kinInv_def fst_conv snd_conv
      using i0 a1 i2 a3 i5 i6 nf cs by auto
  next
    case True
    then have twm: "tw m = m" and km: "K m m = 0" by auto
    have nfm: "\<not> founder st m"
      using i1 [OF m twm] km by auto
    define ifa where "ifa = tw (faSeq st m)"
    define imo where "imo = tw (moSeq st m)"
    have pm: "ifa < m" "imo < m" "tw ifa = ifa" "tw imo = imo"
      using par [OF m nfm] by (auto simp: ifa_def imo_def)
    have pd: "K ifa ifa \<noteq> 0" "K imo imo \<noteq> 0"
      using i1 [of ifa] i1 [of imo] pm m by auto
    define K1 where "K1 = fold (kinCross tw m ifa imo) [0..<NInd st] K"
    define K' where "K' = K1(m := (K1 m)(m := selfCoef (tri K1 ifa imo)))"
    have e: "kinStep st tw m kc = (K', cnt + 1)"
      using twm km nfm pd unfolding K'_def K1_def ifa_def imo_def
      by (simp add: kinStep_def kc Let_def)
    have K1: "K1 = (\<lambda>a b. if a = m \<and> b < m \<and> crossed tw K m (NInd st) b
                             then halfSum (tri K ifa b) (tri K imo b)
           else if b = m \<and> m < a \<and> crossed tw K m (NInd st) a
                             then halfSum (tri K ifa a) (tri K imo a)
           else K a b)"
      unfolding K1_def using pm by (intro kinCross_fold km) auto
    have f1: "\<And>a b. a \<noteq> m \<Longrightarrow> b \<noteq> m \<Longrightarrow> K' a b = K a b"
      by (simp add: K'_def K1)
    have f1': "\<And>a b. a \<noteq> m \<Longrightarrow> b \<noteq> m \<Longrightarrow> K1 a b = K a b"
      by (simp add: K1)
    have f2: "\<And>j. crossed tw K m (NInd st) j \<Longrightarrow>
                tri K' m j = halfSum (tri K ifa j) (tri K imo j)"
    proof -
      fix j assume c: "crossed tw K m (NInd st) j"
      then have "j \<noteq> m" by (simp add: crossed_def)
      then show "tri K' m j = halfSum (tri K ifa j) (tri K imo j)"
        using c by (auto simp: tri_def K'_def K1 max_def min_def)
    qed
    have f3: "K' m m = selfCoef (tri K ifa imo)"
      using tri_away [of m K1 K ifa imo] f1' pm by (simp add: K'_def)
    have t0: "\<And>a b. 0 \<le> tri K a b"
      by (simp add: tri_def i0)
    have f4: "\<And>a b. 0 \<le> K' a b"
    proof -
      fix a b
      show "0 \<le> K' a b"
      proof (cases "a = m \<and> b = m")
        case True
        have "0 \<le> tri K ifa imo" by (rule t0)
        from selfCoef_ge_one [OF this] True show ?thesis by (simp add: f3)
      next
        case False
        then have "K' a b = K1 a b" by (auto simp: K'_def)
        also have "0 \<le> K1 a b"
          using i0 [of a b] halfSum_nonneg [OF t0 [of ifa a] t0 [of imo a]]
            halfSum_nonneg [OF t0 [of ifa b] t0 [of imo b]]
          by (simp add: K1)
        finally show ?thesis .
      qed
    qed
    have cr: "\<And>j. j < NInd st \<Longrightarrow> tw j = j \<Longrightarrow> founder st j \<or> j < m \<Longrightarrow> crossed tw K m (NInd st) j"
      using i1 nfm by (auto simp: crossed_def)
    have a1: "\<forall>j < NInd st. tw j = j \<longrightarrow> (K' j j \<noteq> 0 \<longleftrightarrow> founder st j \<or> j < Suc m)"
    proof (intro allI impI)
      fix j assume j: "j < NInd st" "tw j = j"
      show "K' j j \<noteq> 0 \<longleftrightarrow> founder st j \<or> j < Suc m"
      proof (cases "j = m")
        case True
        have "0 \<le> tri K ifa imo" by (rule t0)
        from selfCoef_ge_one [OF this] have "K' m m \<noteq> 0" unfolding f3 by simp
        with True show ?thesis by simp
      next
        case False
        then have "K' j j = K j j" by (simp add: f1)
        with i1 [OF j] False show ?thesis by (auto simp: less_Suc_eq)
      qed
    qed
    have a2: "\<forall>i < NInd st. founder st i \<longrightarrow> K' i i = 1"
      using i2 nfm f1 by (metis)
    have a3: "\<forall>i < Suc m. tw i = i \<and> \<not> founder st i \<longrightarrow>
           K' i i = selfCoef (tri K' (tw (faSeq st i)) (tw (moSeq st i)))
         \<and> (\<forall>j < NInd st. tw j = j \<and> (founder st j \<or> j < i) \<longrightarrow>
              tri K' i j = halfSum (tri K' (tw (faSeq st i)) j) (tri K' (tw (moSeq st i)) j))"
    proof (intro allI impI)
      fix i assume i: "i < Suc m" and ri: "tw i = i \<and> \<not> founder st i"
      have iN: "i < NInd st" using i m by simp
      have pi: "tw (faSeq st i) < i" "tw (moSeq st i) < i"
        using par [OF iN] ri by auto
      then have pne: "tw (faSeq st i) \<noteq> m" "tw (moSeq st i) \<noteq> m"
        using i by auto
      have s: "K' i i = selfCoef (tri K' (tw (faSeq st i)) (tw (moSeq st i)))"
      proof (cases "i = m")
        case True
        have "tri K' ifa imo = tri K ifa imo"
          using tri_away [of m K' K ifa imo] f1 pm by simp
        with True f3 show ?thesis by (simp add: ifa_def imo_def)
      next
        case False
        then have im: "i < m" using i by simp
        have "tri K' (tw (faSeq st i)) (tw (moSeq st i)) = tri K (tw (faSeq st i)) (tw (moSeq st i))"
          using tri_away [of m K' K] f1 pne by simp
        moreover have "K' i i = K i i" using False by (simp add: f1)
        ultimately show ?thesis using i3 [OF im] ri by simp
      qed
      have c: "\<forall>j < NInd st. tw j = j \<and> (founder st j \<or> j < i) \<longrightarrow>
              tri K' i j = halfSum (tri K' (tw (faSeq st i)) j) (tri K' (tw (moSeq st i)) j)"
      proof (intro allI impI)
        fix j assume j: "j < NInd st" and rj: "tw j = j \<and> (founder st j \<or> j < i)"
        have jm: "j \<noteq> m" using rj nfm i by auto
        have u: "tri K' (tw (faSeq st i)) j = tri K (tw (faSeq st i)) j"
            "tri K' (tw (moSeq st i)) j = tri K (tw (moSeq st i)) j"
          using tri_away [of m K' K] f1 pne jm by simp_all
        show "tri K' i j = halfSum (tri K' (tw (faSeq st i)) j) (tri K' (tw (moSeq st i)) j)"
        proof (cases "i = m")
          case True
          have "crossed tw K m (NInd st) j"
            using cr [OF j] rj True by auto
          from f2 [OF this] True u show ?thesis by (simp add: ifa_def imo_def)
        next
          case False
          then have im: "i < m" using i by simp
          have "tri K' i j = tri K i j"
            using tri_away [of m K' K i j] f1 False jm by simp
          with i4 [OF im _ _ j] ri rj u show ?thesis by simp
        qed
      qed
      from s c show "K' i i = selfCoef (tri K' (tw (faSeq st i)) (tw (moSeq st i)))
         \<and> (\<forall>j < NInd st. tw j = j \<and> (founder st j \<or> j < i) \<longrightarrow>
              tri K' i j = halfSum (tri K' (tw (faSeq st i)) j) (tri K' (tw (moSeq st i)) j))"
        by simp
    qed
    have a5: "cnt + 1 = countInit st + length (filter (\<lambda>i. tw i = i \<and> \<not> founder st i) [0..<Suc m])"
      using i5 twm nfm cs by simp
    have a6: "\<forall>a b. founder st a \<and> founder st b \<and> a \<noteq> b \<longrightarrow> K' a b = 0"
      using i6 nfm f1 by metis
    show ?thesis
      unfolding e kinInv_def fst_conv snd_conv
      using f4 a1 a2 a3 a5 a6 by blast
  qed
qed

lemma kinSweep_inv_aux:
  assumes pf: "parentsFirst st"
    and tw: "\<forall>i < NInd st. tw i \<le> i \<and> tw (tw i) = tw i"
  shows "n \<le> NInd st \<Longrightarrow> kinInv st tw n (fold (kinStep st tw) [0..<n] (kinInit st, countInit st))"
proof (induction n)
  case 0
  show ?case by (simp add: kinInv_init)
next
  case (Suc n)
  then have "kinInv st tw n (fold (kinStep st tw) [0..<n] (kinInit st, countInit st))" by simp
  from kinStep_inv [OF this _ pf tw] Suc.prems show ?case by simp
qed

lemma kinSweep_inv:
  assumes "parentsFirst st"
  shows "kinInv st (twinReps st) (NInd st) (kinSweep st (twinReps st) (kinInit st, countInit st))"
  unfolding kinSweep_def
  by (rule kinSweep_inv_aux [OF assms]) (auto simp: twinReps_le twinReps_idem)


text \<open>The matrix after the first \<open>n\<close> rows have been copied from the representatives.\<close>

definition expanded :: "(nat \<Rightarrow> nat) \<Rightarrow> matrix \<Rightarrow> nat \<Rightarrow> matrix" where
  "expanded tw K0 n = (\<lambda>a b. if a < n \<and> b \<le> a then tri K0 (tw a) (tw b) else K0 a b)"

definition expandedTo :: "(nat \<Rightarrow> nat) \<Rightarrow> matrix \<Rightarrow> nat \<Rightarrow> nat \<Rightarrow> matrix" where
  "expandedTo tw K0 i j =
     (\<lambda>a b. if a = i \<and> b < j then tri K0 (tw i) (tw b) else expanded tw K0 i a b)"

lemma expand_read:
  assumes tw: "\<forall>i < N. tw i \<le> i \<and> tw (tw i) = tw i" and i: "i < N" and j: "j < i"
  shows "tri (expandedTo tw K0 i j) (tw i) (tw j) = tri K0 (tw i) (tw j)"
proof -
  have ti: "tw i \<le> i" "tw (tw i) = tw i" using tw i by auto
  have tj: "tw j \<le> j" "tw (tw j) = tw j" using tw i j by auto
  show ?thesis
  proof (cases "tw i = i")
    case True
    then have "tri (expandedTo tw K0 i j) (tw i) (tw j) = expandedTo tw K0 i j i (tw j)"
      using tj j by (simp add: tri_def max_def min_def)
    also have "\<dots> = tri K0 i (tw j)"
      using tj j True by (auto simp: expandedTo_def expanded_def tri_def max_def min_def)
    finally show ?thesis using True by simp
  next
    case False
    then have lt: "tw i < i" using ti by simp
    define x where "x = max (tw i) (tw j)"
    define y where "y = min (tw i) (tw j)"
    have xy: "x < i" "y \<le> x" "tw x = x" "tw y = y"
      using lt tj j ti by (auto simp: x_def y_def max_def min_def)
    have "tri (expandedTo tw K0 i j) (tw i) (tw j) = expandedTo tw K0 i j x y"
      by (simp add: tri_def x_def y_def)
    also have "\<dots> = tri K0 x y"
      using xy by (simp add: expandedTo_def expanded_def)
    also have "\<dots> = tri K0 (tw i) (tw j)"
      by (auto simp: tri_def x_def y_def max_def min_def)
    finally show ?thesis .
  qed
qed

lemma expandRow_inner:
  assumes tw: "\<forall>i < N. tw i \<le> i \<and> tw (tw i) = tw i" and i: "i < N"
  shows "j \<le> i \<Longrightarrow>
     fold (expandCell tw i) [0..<j] (expanded tw K0 i)
       = expandedTo tw K0 i j"
proof (induction j)
  case 0
  show ?case by (simp add: expandedTo_def)
next
  case (Suc j)
  then have ih: "fold (expandCell tw i) [0..<j] (expanded tw K0 i)
       = expandedTo tw K0 i j" and j: "j < i"
    by simp_all
  have "fold (expandCell tw i) [0..<Suc j] (expanded tw K0 i)
      = (expandedTo tw K0 i j)(i := (expandedTo tw K0 i j i)(j := tri K0 (tw i) (tw j)))"
    by (simp add: ih expandCell_def expand_read [OF tw i j])
  also have "\<dots> = expandedTo tw K0 i (Suc j)"
    by (rule ext, rule ext) (auto simp: expandedTo_def less_Suc_eq)
  finally show ?case .
qed

lemma expandRow_expanded:
  assumes tw: "\<forall>i < N. tw i \<le> i \<and> tw (tw i) = tw i" and i: "i < N"
  shows "expandRow tw i (expanded tw K0 i) = expanded tw K0 (Suc i)"
proof -
  have ti: "tw i \<le> i" "tw (tw i) = tw i" using tw i by auto
  have d: "expandedTo tw K0 i i (tw i) (tw i) = K0 (tw i) (tw i)"
    using ti by (auto simp: expandedTo_def expanded_def tri_def)
  have "expandRow tw i (expanded tw K0 i)
      = (expandedTo tw K0 i i)(i := (expandedTo tw K0 i i i)(i := K0 (tw i) (tw i)))"
    by (simp add: expandRow_def Let_def expandRow_inner [OF tw i] d)
  also have "\<dots> = expanded tw K0 (Suc i)"
    by (rule ext, rule ext) (auto simp: expandedTo_def expanded_def less_Suc_eq tri_def)
  finally show ?thesis .
qed

lemma expand_fold:
  assumes tw: "\<forall>i < N. tw i \<le> i \<and> tw (tw i) = tw i"
  shows "n \<le> N \<Longrightarrow> fold (expandRow tw) [0..<n] K0 = expanded tw K0 n"
proof (induction n)
  case 0
  show ?case by (simp add: expanded_def)
next
  case (Suc n)
  then show ?case by (simp add: expandRow_expanded [OF tw])
qed

lemma expand_tri:
  assumes "a < NInd st" "b < NInd st"
  shows "tri (expand st (twinReps st) K0) a b = tri K0 (twinReps st a) (twinReps st b)"
proof -
  have tw: "\<forall>i < NInd st. twinReps st i \<le> i \<and> twinReps st (twinReps st i) = twinReps st i"
    by (simp add: twinReps_le twinReps_idem)
  have "expand st (twinReps st) K0 = expanded (twinReps st) K0 (NInd st)"
    unfolding expand_def by (rule expand_fold [OF tw]) simp
  then show ?thesis
    using assms by (auto simp: expanded_def tri_def max_def min_def)
qed


lemma length_filter_split:
  "length (filter P xs) = length (filter (\<lambda>x. P x \<and> Q x) xs) + length (filter (\<lambda>x. P x \<and> \<not> Q x) xs)"
  by (induction xs) auto

lemma length_filter_mono:
  "(\<And>x. P x \<Longrightarrow> Q x) \<Longrightarrow> length (filter P xs) \<le> length (filter Q xs)"
  by (induction xs) auto

lemma kinLoop_parentsFirst:
  assumes "parentsFirst st"
  shows "kinLoop st (twinReps st) (nReps st (twinReps st)) (kinInit st, countInit st)
           = Some (kinSweep st (twinReps st) (kinInit st, countInit st))"
proof -
  let ?tw = "twinReps st"
  let ?kc = "kinSweep st ?tw (kinInit st, countInit st)"
  have "snd ?kc = countInit st + length (filter (\<lambda>i. ?tw i = i \<and> \<not> founder st i) [0..<NInd st])"
    using kinSweep_inv [OF assms] by (simp add: kinInv_def)
  moreover have "nReps st ?tw
      = length (filter (\<lambda>i. ?tw i = i \<and> founder st i) [0..<NInd st])
        + length (filter (\<lambda>i. ?tw i = i \<and> \<not> founder st i) [0..<NInd st])"
    unfolding nReps_def by (rule length_filter_split)
  moreover have "length (filter (\<lambda>i. ?tw i = i \<and> founder st i) [0..<NInd st]) \<le> countInit st"
    unfolding countInit_def by (rule length_filter_mono) simp
  ultimately have "\<not> snd ?kc < nReps st ?tw" by simp
  then show ?thesis by (rule kinLoop_once)
qed

lemma kin2_recurrence:
  assumes "parentsFirst st"
  shows "\<exists>r. calcKin2 st = Some r
    \<and> (\<forall>i < NInd st. itwin r i = i \<longrightarrow>
         (founder st i \<longrightarrow>
            kin2 r i i = 1
          \<and> (\<forall>j < NInd st. itwin r j = j \<and> founder st j \<and> j \<noteq> i \<longrightarrow> tri (kin2 r) i j = 0))
       \<and> (\<not> founder st i \<longrightarrow>
            kin2 r i i = selfCoef (tri (kin2 r) (itwin r (faSeq st i)) (itwin r (moSeq st i)))
          \<and> (\<forall>j < NInd st. itwin r j = j \<and> (founder st j \<or> j < i) \<longrightarrow>
                tri (kin2 r) i j
                  = halfSum (tri (kin2 r) (itwin r (faSeq st i)) j)
                      (tri (kin2 r) (itwin r (moSeq st i)) j))))
    \<and> (\<forall>i < NInd st. \<forall>j < NInd st.
          tri (kin2 r) i j = tri (kin2 r) (itwin r i) (itwin r j))"
proof -
  let ?tw = "twinReps st"
  define kc where "kc = kinSweep st ?tw (kinInit st, countInit st)"
  define K where "K = fst kc"
  define r where "r = \<lparr>kin2 = expand st ?tw K, itwin = ?tw, phi2 = phi2File st ?tw (expand st ?tw K),
     peds = fst (flagInbred st (expand st ?tw K)), isInbred = snd (flagInbred st (expand st ?tw K))\<rparr>"
  have r: "calcKin2 st = Some r"
    by (simp add: calcKin2_def Let_def kinLoop_parentsFirst [OF assms] r_def K_def kc_def
        split: prod.splits)
  have inv: "kinInv st ?tw (NInd st) kc"
    unfolding kc_def by (rule kinSweep_inv [OF assms])
  have ex: "\<And>a b. a < NInd st \<Longrightarrow> b < NInd st \<Longrightarrow> tri (kin2 r) a b = tri K (?tw a) (?tw b)"
    by (simp add: r_def expand_tri)
  have rep: "\<And>a b. a < NInd st \<Longrightarrow> b < NInd st \<Longrightarrow> ?tw a = a \<Longrightarrow> ?tw b = b
      \<Longrightarrow> tri (kin2 r) a b = tri K a b"
    by (simp add: ex)
  have diag: "\<And>a. a < NInd st \<Longrightarrow> ?tw a = a \<Longrightarrow> kin2 r a a = K a a"
  proof -
    fix a assume "a < NInd st" "?tw a = a"
    from rep [OF this(1) this(1) this(2) this(2)] show "kin2 r a a = K a a"
      by (simp add: tri_def)
  qed
  have one: "\<forall>i < NInd st. itwin r i = i \<longrightarrow>
         (founder st i \<longrightarrow>
            kin2 r i i = 1
          \<and> (\<forall>j < NInd st. itwin r j = j \<and> founder st j \<and> j \<noteq> i \<longrightarrow> tri (kin2 r) i j = 0))
       \<and> (\<not> founder st i \<longrightarrow>
            kin2 r i i = selfCoef (tri (kin2 r) (itwin r (faSeq st i)) (itwin r (moSeq st i)))
          \<and> (\<forall>j < NInd st. itwin r j = j \<and> (founder st j \<or> j < i) \<longrightarrow>
                tri (kin2 r) i j
                  = halfSum (tri (kin2 r) (itwin r (faSeq st i)) j)
                      (tri (kin2 r) (itwin r (moSeq st i)) j)))"
  proof (intro allI impI conjI)
    fix i assume i: "i < NInd st" and ti: "itwin r i = i" and "founder st i"
    then show "kin2 r i i = 1"
      using inv diag [of i] by (simp add: kinInv_def K_def r_def)
  next
    fix i j assume i: "i < NInd st" and ti: "itwin r i = i" and fi: "founder st i"
      and j: "j < NInd st" and rj: "itwin r j = j \<and> founder st j \<and> j \<noteq> i"
    have z: "\<And>a b. founder st a \<Longrightarrow> founder st b \<Longrightarrow> a \<noteq> b \<Longrightarrow> K a b = 0"
      using inv by (simp add: kinInv_def K_def)
    have "tri K i j = 0"
      using z [of i j] z [of j i] fi rj by (simp add: tri_def max_def min_def)
    then show "tri (kin2 r) i j = 0"
      using rep [OF i j] ti rj by (simp add: r_def)
  next
    fix i assume i: "i < NInd st" and ti: "itwin r i = i" and nf: "\<not> founder st i"
    have twi: "?tw i = i" using ti by (simp add: r_def)
    have p: "faSeq st i < i" "moSeq st i < i"
      using assms i nf by (auto simp: parentsFirst_def)
    then have pN: "faSeq st i < NInd st" "moSeq st i < NInd st" using i by auto
    have tp: "?tw (faSeq st i) < NInd st" "?tw (moSeq st i) < NInd st"
      using twinReps_le [OF pN(1)] twinReps_le [OF pN(2)] pN by auto
    have ip: "?tw (?tw (faSeq st i)) = ?tw (faSeq st i)" "?tw (?tw (moSeq st i)) = ?tw (moSeq st i)"
      using twinReps_idem pN by auto
    have "K i i = selfCoef (tri K (?tw (faSeq st i)) (?tw (moSeq st i)))"
      using inv i twi nf by (simp add: kinInv_def K_def)
    then show "kin2 r i i = selfCoef (tri (kin2 r) (itwin r (faSeq st i)) (itwin r (moSeq st i)))"
      using diag [OF i twi] rep [OF tp ip] by (simp add: r_def)
  next
    fix i j assume i: "i < NInd st" and ti: "itwin r i = i" and nf: "\<not> founder st i"
      and j: "j < NInd st" and rj: "itwin r j = j \<and> (founder st j \<or> j < i)"
    have twi: "?tw i = i" using ti by (simp add: r_def)
    have twj: "?tw j = j" using rj by (simp add: r_def)
    have p: "faSeq st i < i" "moSeq st i < i"
      using assms i nf by (auto simp: parentsFirst_def)
    then have pN: "faSeq st i < NInd st" "moSeq st i < NInd st" using i by auto
    have tp: "?tw (faSeq st i) < NInd st" "?tw (moSeq st i) < NInd st"
      using twinReps_le [OF pN(1)] twinReps_le [OF pN(2)] pN by auto
    have ip: "?tw (?tw (faSeq st i)) = ?tw (faSeq st i)" "?tw (?tw (moSeq st i)) = ?tw (moSeq st i)"
      using twinReps_idem pN by auto
    have "tri K i j = halfSum (tri K (?tw (faSeq st i)) j) (tri K (?tw (moSeq st i)) j)"
      using inv i twi nf j twj rj by (simp add: kinInv_def K_def)
    then show "tri (kin2 r) i j
                  = halfSum (tri (kin2 r) (itwin r (faSeq st i)) j)
                      (tri (kin2 r) (itwin r (moSeq st i)) j)"
      using rep [OF i j twi twj] rep [OF tp(1) j ip(1) twj] rep [OF tp(2) j ip(2) twj]
      by (simp add: r_def)
  qed
  have two: "\<forall>i < NInd st. \<forall>j < NInd st.
          tri (kin2 r) i j = tri (kin2 r) (itwin r i) (itwin r j)"
  proof (intro allI impI)
    fix i j assume i: "i < NInd st" and j: "j < NInd st"
    have ti: "?tw i < NInd st" "?tw (?tw i) = ?tw i"
      using twinReps_le [OF i] twinReps_idem [OF i] i by auto
    have tj: "?tw j < NInd st" "?tw (?tw j) = ?tw j"
      using twinReps_le [OF j] twinReps_idem [OF j] j by auto
    show "tri (kin2 r) i j = tri (kin2 r) (itwin r i) (itwin r j)"
      using ex [OF i j] rep [OF ti(1) tj(1) ti(2) tj(2)] by (simp add: r_def)
  qed
  from r one two show ?thesis by blast
qed

text \<open>
  Claim C1, as amended. When the sequence order puts parents first, \<open>calcKin2\<close> returns,
  and for every individual \<open>i\<close> that is its own twin representative: \<open>kin2[i][i] = 1\<close>
  if \<open>i\<close> is a founder, and the coefficient of two founders is 0; else \<open>kin2[i][i]\<close> is
  \<open>1 + kin2(father, mother) / 2\<close> rounded to \<open>float\<close>, and for every representative \<open>j\<close>
  that has a row when \<open>i\<close> is processed (the founders and the representatives before
  \<open>i\<close>), \<open>kin2(max(i,j), min(i,j))\<close> is half the sum \<open>kin2(father, j) + kin2(mother, j)\<close>,
  the sum rounded to \<open>float\<close>. Father and mother stand for their twin representatives,
  and every other individual has the coefficients of its representative.
\<close>

theorem calcKin2_recurrence:
  assumes "parentsFirst st"
  shows "\<exists>r. calcKin2 st = Some r
    \<and> (\<forall>i < NInd st. itwin r i = i \<longrightarrow>
         (founder st i \<longrightarrow>
            kin2 r i i = 1
          \<and> (\<forall>j < NInd st. itwin r j = j \<and> founder st j \<and> j \<noteq> i \<longrightarrow> tri (kin2 r) i j = 0))
       \<and> (\<not> founder st i \<longrightarrow>
            kin2 r i i = selfCoef (tri (kin2 r) (itwin r (faSeq st i)) (itwin r (moSeq st i)))
          \<and> (\<forall>j < NInd st. itwin r j = j \<and> (founder st j \<or> j < i) \<longrightarrow>
                tri (kin2 r) i j
                  = halfSum (tri (kin2 r) (itwin r (faSeq st i)) j)
                      (tri (kin2 r) (itwin r (moSeq st i)) j))))
    \<and> (\<forall>i < NInd st. \<forall>j < NInd st.
          tri (kin2 r) i j = tri (kin2 r) (itwin r i) (itwin r j))"
  using assms by (rule kin2_recurrence)

text \<open>
  Claim C5. The flag loop of \<open>calcKin2\<close> flags a pedigree \<open>p\<close> inbred exactly when some
  individual \<open>i\<close> of that pedigree has \<open>kin2[i][i] > 1\<close>, whatever the content \<open>K\<close> of
  \<open>kin2\<close>; and when the sequence order puts parents first, \<open>calcKin2\<close> returns with the
  flags set in this way from the matrix it has computed. The pedigree ids of the
  individuals are those assigned by \<open>makePeds\<close>: indices into \<open>PedArray\<close>.
\<close>

theorem calcKin2_inbred_flag:
  assumes "\<forall>i < NInd st. 0 \<le> ped (indSeq st i) \<and> nat (ped (indSeq st i)) < NPed st"
    and "p < NPed st"
  shows "(inbred (fst (flagInbred st K) ! p)
            \<longleftrightarrow> (\<exists>i < NInd st. ped (indSeq st i) = int p \<and> K i i > 1))
       \<and> (parentsFirst st \<longrightarrow>
            (\<exists>r. calcKin2 st = Some r
               \<and> (inbred (peds r ! p)
                    \<longleftrightarrow> (\<exists>i < NInd st. ped (indSeq st i) = int p \<and> kin2 r i i > 1))))"
proof (intro conjI impI)
  show "inbred (fst (flagInbred st K) ! p)
            \<longleftrightarrow> (\<exists>i < NInd st. ped (indSeq st i) = int p \<and> K i i > 1)"
    by (rule flagInbred_iff(1) [OF assms])
next
  assume "parentsFirst st"
  from kin2_recurrence [OF this] obtain r where r: "calcKin2 st = Some r" by blast
  have "inbred (peds r ! p) \<longleftrightarrow> (\<exists>i < NInd st. ped (indSeq st i) = int p \<and> kin2 r i i > 1)"
    using flagInbred_iff(1) [OF assms, of "kin2 r"] calcKin2_Some(1) [OF r] by simp
  with r show "\<exists>r. calcKin2 st = Some r
               \<and> (inbred (peds r ! p)
                    \<longleftrightarrow> (\<exists>i < NInd st. ped (indSeq st i) = int p \<and> kin2 r i i > 1))"
    by blast
qed

text \<open>
  Claim C6, as amended. When the sequence order puts parents first, \<open>calcKin2\<close> returns,
  and for two distinct individuals \<open>j < i\<close> of one pedigree the file \<open>phi2\<close> has the line
  \<open>(i+1, j+1, k, d)\<close> exactly when \<open>kin2[i][j]\<close> is not zero, \<open>k\<close> is that coefficient and
  \<open>d\<close>, the delta7 value, is 1 for co-twins (same twin representative), otherwise, when
  both have a family, a quarter of
  \<open>kin2(fa_i,fa_j) * kin2(mo_i,mo_j) + kin2(fa_i,mo_j) * kin2(mo_i,fa_j)\<close> with the two
  products, their sum and the result rounded to \<open>float\<close>, and otherwise 0.
\<close>

theorem calcKin2_delta7:
  assumes "parentsFirst st"
    and "j < i" and "i < NInd st"
    and "ped (indSeq st i) = ped (indSeq st j)"
  shows "\<exists>r. calcKin2 st = Some r
    \<and> ((i + 1, j + 1, k, d) \<in> set (phi2 r) \<longleftrightarrow>
        kin2 r i j \<noteq> 0 \<and> k = kin2 r i j
        \<and> d = (if itwin r i = itwin r j then 1
               else if \<not> founder st i \<and> \<not> founder st j then
                 quarterProd (tri (kin2 r) (faSeq st i) (faSeq st j))
                   (tri (kin2 r) (moSeq st i) (moSeq st j))
                   (tri (kin2 r) (faSeq st i) (moSeq st j))
                   (tri (kin2 r) (moSeq st i) (faSeq st j))
               else 0))"
proof -
  from kin2_recurrence [OF assms(1)] obtain r where r: "calcKin2 st = Some r" by blast
  have "(i + 1, j + 1, k, d) \<in> set (phi2 r) \<longleftrightarrow>
        kin2 r i j \<noteq> 0 \<and> k = kin2 r i j
        \<and> d = (if itwin r i = itwin r j then 1
               else if \<not> founder st i \<and> \<not> founder st j then
                 quarterProd (tri (kin2 r) (faSeq st i) (faSeq st j))
                   (tri (kin2 r) (moSeq st i) (moSeq st j))
                   (tri (kin2 r) (faSeq st i) (moSeq st j))
                   (tri (kin2 r) (moSeq st i) (faSeq st j))
               else 0)"
    using phi2File_mem [OF assms(2,3), where k = k and d = d and tw = "itwin r" and K = "kin2 r"]
      calcKin2_Some(3) [OF r] assms(4)
    by (simp add: delta7_def founder_def Let_def)
  with r show ?thesis by blast
qed

lemma calcKin2_eval:
  assumes "parentsFirst st" and "calcKin2 st = Some r"
  shows "kin2 r = expand st (twinReps st) (fst (kinSweep st (twinReps st) (kinInit st, countInit st)))"
    and "itwin r = twinReps st"
  using assms(2) by (auto simp: calcKin2_def Let_def kinLoop_parentsFirst [OF assms(1)] split: prod.splits)

text \<open>
  A pedigree with a mating of full sibs: founders 0 and 1, their children 2 and 3, and
  4, the child of 2 and 3. Sequence numbers are the indices.
\<close>

definition exInd :: "nat option \<Rightarrow> nat \<Rightarrow> Ind" where
  "exInd f s = \<lparr>fam = f, itwinid = 0, ped = 0, gen = 0, seq = s\<rparr>"

definition exFam :: "nat \<Rightarrow> nat \<Rightarrow> nat \<Rightarrow> Fam" where
  "exFam a b n = \<lparr>fa = a, mo = b, nkid = n, fped = 0, fseq = 0\<rparr>"

definition sibMating :: pedstate where
  "sibMating =
     \<lparr>IndArray = [exInd None 0, exInd None 1, exInd (Some 0) 2, exInd (Some 0) 3, exInd (Some 1) 4],
      FamArray = [exFam 0 1 2, (exFam 2 3 1)\<lparr>fseq := 1\<rparr>],
      PedArray = [\<lparr>fams = [0, 1], nfam = 2, nind = 5, nfou = 2, inbred = False, hasloops = False, nlbrk = 0\<rparr>],
      IndSort = [0, 1, 2, 3, 4], IndSeq = [0, 1, 2, 3, 4]\<rparr>"

text \<open>Two founders and their children 2 and 3, who are monozygotic twins.\<close>

definition twins :: pedstate where
  "twins =
     \<lparr>IndArray = [exInd None 0, exInd None 1, (exInd (Some 0) 2)\<lparr>itwinid := 1\<rparr>,
                  (exInd (Some 0) 3)\<lparr>itwinid := 1\<rparr>],
      FamArray = [exFam 0 1 2],
      PedArray = [\<lparr>fams = [0], nfam = 1, nind = 4, nfou = 2, inbred = False, hasloops = False, nlbrk = 0\<rparr>],
      IndSort = [0, 1, 2, 3], IndSeq = [0, 1, 2, 3]\<rparr>"

lemma fl_vals:
  "selfCoef 0 = 1" "selfCoef (1 / 2) = 5 / 4" "halfSum 0 0 = 0" "halfSum 1 0 = 1 / 2" "halfSum 0 1 = 1 / 2"
  "halfSum (1 / 2) (1 / 2) = 1 / 2" "halfSum 1 (1 / 2) = 3 / 4" "halfSum (1 / 2) 1 = 3 / 4"
  "quarterProd (1 / 2) (1 / 2) (1 / 2) (1 / 2) = 1 / 8"
  by (simp_all add: fl_eval)

lemmas kin_eval = fl_vals sibMating_def twins_def exInd_def exFam_def NInd_def NPed_def indSeq_def
  founder_def faSeq_def moSeq_def tri_def setTri_def twinStep_def twinReps_def kinInit_def
  countInit_def nReps_def kinCross_def kinStep_def kinSweep_def expandCell_def expandRow_def
  expand_def Let_def upt_rec [of _ "numeral _"]

lemma parentsFirst_sibMating: "parentsFirst sibMating"
  by (simp add: parentsFirst_def sibMating_def exInd_def exFam_def NInd_def indSeq_def
      founder_def faSeq_def moSeq_def less_Suc_eq)

lemma parentsFirst_twins: "parentsFirst twins"
  by (simp add: parentsFirst_def twins_def exInd_def exFam_def NInd_def indSeq_def
      founder_def faSeq_def moSeq_def less_Suc_eq)

lemma kin2_sibMating:
  "expand sibMating (twinReps sibMating)
          (fst (kinSweep sibMating (twinReps sibMating) (kinInit sibMating, countInit sibMating))) 4 4 = 5 / 4"
  "expand sibMating (twinReps sibMating)
          (fst (kinSweep sibMating (twinReps sibMating) (kinInit sibMating, countInit sibMating))) 4 3 = 3 / 4"
  by (simp_all add: kin_eval)

lemma kin2_twins:
  "expand twins (twinReps twins)
          (fst (kinSweep twins (twinReps twins) (kinInit twins, countInit twins))) 3 2 = 1"
  "twinReps twins 3 = 2" "twinReps twins 2 = 2"
  by (simp_all add: kin_eval)

theorem calcKin2_recurrence_witness:
  "parentsFirst sibMating
   \<and> (\<exists>r. calcKin2 sibMating = Some r
        \<and> kin2 r 0 0 = 1
        \<and> tri (kin2 r) 1 0 = 0
        \<and> kin2 r 4 4 = selfCoef (tri (kin2 r) 2 3)
        \<and> tri (kin2 r) 4 2 = halfSum (tri (kin2 r) 2 2) (tri (kin2 r) 3 2))"
proof -
  note pf = parentsFirst_sibMating
  from calcKin2_recurrence [OF pf] obtain r where r: "calcKin2 sibMating = Some r"
    and rec: "\<forall>i < NInd sibMating. itwin r i = i \<longrightarrow>
         (founder sibMating i \<longrightarrow>
            kin2 r i i = 1
          \<and> (\<forall>j < NInd sibMating. itwin r j = j \<and> founder sibMating j \<and> j \<noteq> i \<longrightarrow> tri (kin2 r) i j = 0))
       \<and> (\<not> founder sibMating i \<longrightarrow>
            kin2 r i i = selfCoef (tri (kin2 r) (itwin r (faSeq sibMating i)) (itwin r (moSeq sibMating i)))
          \<and> (\<forall>j < NInd sibMating. itwin r j = j \<and> (founder sibMating j \<or> j < i) \<longrightarrow>
                tri (kin2 r) i j
                  = halfSum (tri (kin2 r) (itwin r (faSeq sibMating i)) j)
                      (tri (kin2 r) (itwin r (moSeq sibMating i)) j)))"
    by blast
  have tw: "itwin r = twinReps sibMating"
    using calcKin2_Some(4) [OF r] .
  have t: "itwin r 0 = 0" "itwin r 1 = 1" "itwin r 2 = 2" "itwin r 3 = 3" "itwin r 4 = 4"
    unfolding tw by (simp_all add: kin_eval)
  have n: "(0::nat) < NInd sibMating" "1 < NInd sibMating" "2 < NInd sibMating" "4 < NInd sibMating"
    by (simp_all add: sibMating_def NInd_def)
  have f: "founder sibMating 0" "founder sibMating 1" "\<not> founder sibMating 4"
      "faSeq sibMating 4 = 2" "moSeq sibMating 4 = 3"
    by (simp_all add: sibMating_def exInd_def exFam_def indSeq_def founder_def faSeq_def moSeq_def)
  have a: "kin2 r 0 0 = 1"
    using rec n(1) t(1) f(1) by blast
  have z: "tri (kin2 r) 1 0 = 0"
    using rec [rule_format, OF n(2) t(2)] f t n(1) by simp
  have b: "kin2 r 4 4 = selfCoef (tri (kin2 r) 2 3)"
    using rec [rule_format, OF n(4) t(5)] f t by simp
  have c: "tri (kin2 r) 4 2 = halfSum (tri (kin2 r) 2 2) (tri (kin2 r) 3 2)"
    using rec [rule_format, OF n(4) t(5)] f t n(3) by simp
  from pf r a z b c show ?thesis by blast
qed

theorem calcKin2_inbred_flag_witness:
  "0 < NPed sibMating
   \<and> inbred (fst (flagInbred sibMating (\<lambda>i j. if i = 4 then 5 / 4 else 1)) ! 0)
   \<and> \<not> inbred (fst (flagInbred sibMating (\<lambda>i j. 1)) ! 0)
   \<and> parentsFirst sibMating
   \<and> (\<exists>r. calcKin2 sibMating = Some r \<and> kin2 r 4 4 = 5 / 4 \<and> inbred (peds r ! 0))"
proof -
  have w: "\<forall>i < NInd sibMating. 0 \<le> ped (indSeq sibMating i)
      \<and> nat (ped (indSeq sibMating i)) < NPed sibMating"
    by (simp add: sibMating_def exInd_def NInd_def NPed_def indSeq_def less_Suc_eq)
  have p: "0 < NPed sibMating"
    by (simp add: sibMating_def NPed_def)
  have i4: "4 < NInd sibMating" "ped (indSeq sibMating 4) = int 0"
    by (simp_all add: sibMating_def exInd_def NInd_def indSeq_def)
  have a: "inbred (fst (flagInbred sibMating (\<lambda>i j. if i = 4 then 5 / 4 else 1)) ! 0)"
    using calcKin2_inbred_flag [OF w p, of "\<lambda>i j. if i = 4 then 5 / 4 else 1", THEN conjunct1] i4
    by auto
  have b: "\<not> inbred (fst (flagInbred sibMating (\<lambda>i j. 1)) ! 0)"
    using calcKin2_inbred_flag [OF w p, of "\<lambda>i j. 1", THEN conjunct1] by simp
  from calcKin2_inbred_flag [OF w p, of "\<lambda>i j. 1", THEN conjunct2, rule_format, OF parentsFirst_sibMating]
  obtain r where r: "calcKin2 sibMating = Some r"
    and f: "inbred (peds r ! 0) \<longleftrightarrow> (\<exists>i < NInd sibMating. ped (indSeq sibMating i) = int 0 \<and> kin2 r i i > 1)"
    by blast
  have k: "kin2 r 4 4 = 5 / 4"
    using calcKin2_eval(1) [OF parentsFirst_sibMating r] kin2_sibMating(1) by simp
  have "inbred (peds r ! 0)"
    unfolding f using i4 k by (intro exI [of _ 4]) simp
  with p a b r k parentsFirst_sibMating show ?thesis by blast
qed

theorem calcKin2_delta7_witness:
  "parentsFirst sibMating \<and> parentsFirst twins
   \<and> (5, 4, 3 / 4, 1 / 8) \<in> set (phi2 (the (calcKin2 sibMating)))
   \<and> (4, 3, 1, 1) \<in> set (phi2 (the (calcKin2 twins)))"
proof -
  have a: "(3::nat) < 4" "4 < NInd sibMating" "ped (indSeq sibMating 4) = ped (indSeq sibMating 3)"
    by (simp_all add: sibMating_def exInd_def NInd_def indSeq_def)
  from calcKin2_delta7 [OF parentsFirst_sibMating a, of "3 / 4" "1 / 8"]
  obtain r where r: "calcKin2 sibMating = Some r"
    and l: "(4 + 1, 3 + 1, 3 / 4, 1 / 8) \<in> set (phi2 r) \<longleftrightarrow>
        kin2 r 4 3 \<noteq> 0 \<and> 3 / 4 = kin2 r 4 3
        \<and> 1 / 8 = (if itwin r 4 = itwin r 3 then 1
               else if \<not> founder sibMating 4 \<and> \<not> founder sibMating 3 then
                 quarterProd (tri (kin2 r) (faSeq sibMating 4) (faSeq sibMating 3))
                   (tri (kin2 r) (moSeq sibMating 4) (moSeq sibMating 3))
                   (tri (kin2 r) (faSeq sibMating 4) (moSeq sibMating 3))
                   (tri (kin2 r) (moSeq sibMating 4) (faSeq sibMating 3))
               else 0)"
    by blast
  note e = calcKin2_eval [OF parentsFirst_sibMating r]
  have v: "kin2 r 4 3 = 3 / 4"
    unfolding e by (rule kin2_sibMating(2))
  have d: "(if itwin r 4 = itwin r 3 then 1
               else if \<not> founder sibMating 4 \<and> \<not> founder sibMating 3 then
                 quarterProd (tri (kin2 r) (faSeq sibMating 4) (faSeq sibMating 3))
                   (tri (kin2 r) (moSeq sibMating 4) (moSeq sibMating 3))
                   (tri (kin2 r) (faSeq sibMating 4) (moSeq sibMating 3))
                   (tri (kin2 r) (moSeq sibMating 4) (faSeq sibMating 3))
               else 0) = 1 / 8"
    unfolding e by (simp add: kin_eval)
  have s: "(5, 4, 3 / 4, 1 / 8) \<in> set (phi2 (the (calcKin2 sibMating)))"
    using l v d r by simp
  have b: "(2::nat) < 3" "3 < NInd twins" "ped (indSeq twins 3) = ped (indSeq twins 2)"
    by (simp_all add: twins_def exInd_def NInd_def indSeq_def)
  from calcKin2_delta7 [OF parentsFirst_twins b, of 1 1]
  obtain q where q: "calcKin2 twins = Some q"
    and m: "(3 + 1, 2 + 1, 1, 1) \<in> set (phi2 q) \<longleftrightarrow>
        kin2 q 3 2 \<noteq> 0 \<and> 1 = kin2 q 3 2
        \<and> 1 = (if itwin q 3 = itwin q 2 then 1
               else if \<not> founder twins 3 \<and> \<not> founder twins 2 then
                 quarterProd (tri (kin2 q) (faSeq twins 3) (faSeq twins 2))
                   (tri (kin2 q) (moSeq twins 3) (moSeq twins 2))
                   (tri (kin2 q) (faSeq twins 3) (moSeq twins 2))
                   (tri (kin2 q) (moSeq twins 3) (faSeq twins 2))
               else 0)"
    by blast
  note g = calcKin2_eval [OF parentsFirst_twins q]
  have "kin2 q 3 2 = 1" "itwin q 3 = itwin q 2"
    unfolding g by (simp_all add: kin2_twins)
  then have t: "(4, 3, 1, 1) \<in> set (phi2 (the (calcKin2 twins)))"
    using m q by simp
  from s t parentsFirst_sibMating parentsFirst_twins show ?thesis by blast
qed

text \<open>
  A father and his line of daughters: founders 0 (the father) and 1, and for
  \<open>f = 0 .. n-1\<close> family \<open>f\<close>, of the father and individual \<open>f + 1\<close>, with the one child
  \<open>f + 2\<close>. Sequence numbers are the indices.
\<close>

definition chain :: "nat \<Rightarrow> pedstate" where
  "chain n =
     \<lparr>IndArray = [exInd None 0, exInd None 1] @ map (\<lambda>f. exInd (Some f) (f + 2)) [0..<n],
      FamArray = map (\<lambda>f. exFam 0 (f + 1) 1) [0..<n],
      PedArray = [\<lparr>fams = [0..<n], nfam = n, nind = n + 2, nfou = 2, inbred = False,
                   hasloops = False, nlbrk = 0\<rparr>],
      IndSort = [0..<n + 2], IndSeq = [0..<n + 2]\<rparr>"

lemma chain_arr:
  assumes i: "i < n + 2"
  shows "IndArray (chain n) ! i = (if i < 2 then exInd None i else exInd (Some (i - 2)) i)"
proof (cases "i < 2")
  case True
  then have "i = 0 \<or> i = 1" by auto
  then show ?thesis by (auto simp: chain_def)
next
  case False
  then have "IndArray (chain n) ! i = map (\<lambda>f. exInd (Some f) (f + 2)) [0..<n] ! (i - 2)"
    by (simp add: chain_def nth_append numeral_2_eq_2)
  also have "\<dots> = exInd (Some (i - 2)) i"
  proof -
    have lt: "i - 2 < n" using False i by simp
    have "Suc (Suc (i - 2)) = i" using False by simp
    then show ?thesis using lt by simp
  qed
  finally show ?thesis using False by simp
qed

lemma chain_ind:
  "NInd (chain n) = n + 2"
  "i < n + 2 \<Longrightarrow> indSeq (chain n) i = (if i < 2 then exInd None i else exInd (Some (i - 2)) i)"
proof -
  show "NInd (chain n) = n + 2" by (simp add: NInd_def chain_def)
  assume i: "i < n + 2"
  have "indSeq (chain n) i = IndArray (chain n) ! i"
    using i by (simp add: indSeq_def chain_def del: upt_Suc)
  then show "indSeq (chain n) i = (if i < 2 then exInd None i else exInd (Some (i - 2)) i)"
    using chain_arr [OF i] by simp
qed

lemma chain_par:
  assumes "2 \<le> i" "i < n + 2"
  shows "\<not> founder (chain n) i" "faSeq (chain n) i = 0" "moSeq (chain n) i = i - 1"
proof -
  have f: "fam (indSeq (chain n) i) = Some (i - 2)"
    using assms by (simp add: chain_ind exInd_def)
  show "\<not> founder (chain n) i" by (simp add: founder_def f)
  have lt: "i - 2 < n" using assms by simp
  have "Suc (i - 2) = i - 1" using assms by simp
  then have fa: "FamArray (chain n) ! (i - 2) = exFam 0 (i - 1) 1"
    using lt by (simp add: chain_def)
  have i0: "IndArray (chain n) ! 0 = exInd None 0" by (simp add: chain_def)
  have "i - 1 < n + 2" using assms by simp
  from chain_arr [OF this] have i1: "seq (IndArray (chain n) ! (i - 1)) = i - 1"
    by (simp add: exInd_def)
  show "faSeq (chain n) i = 0" by (simp add: faSeq_def f fa exFam_def i0 exInd_def)
  show "moSeq (chain n) i = i - 1" using i1 by (simp add: moSeq_def f fa exFam_def)
qed

lemma chain_founder: "i < 2 \<Longrightarrow> founder (chain n) i"
  by (simp add: founder_def chain_ind exInd_def)

lemma parentsFirst_chain: "parentsFirst (chain n)"
  unfolding parentsFirst_def
proof (intro allI impI)
  fix i assume i: "i < NInd (chain n)" and nf: "\<not> founder (chain n) i"
  have "2 \<le> i" using nf chain_founder [of i n] by (cases "i < 2") auto
  with i show "faSeq (chain n) i < i \<and> moSeq (chain n) i < i"
    by (simp add: chain_par chain_ind)
qed

lemma twinFold_none:
  "(\<forall>i < n. itwinid (indSeq st i) = 0) \<Longrightarrow> i < n \<Longrightarrow>
   snd (fold (twinStep st) [0..<n] tw) i = i"
proof (induction n)
  case 0
  then show ?case by simp
next
  case (Suc n)
  obtain t1 t2 where f: "fold (twinStep st) [0..<n] tw = (t1, t2)"
    by (cases "fold (twinStep st) [0..<n] tw")
  have s: "twinStep st n (fold (twinStep st) [0..<n] tw) = (t1, t2(n := n))"
    using Suc.prems(1) by (simp add: f twinStep_def)
  show ?case
  proof (cases "i = n")
    case True
    then show ?thesis by (simp add: s)
  next
    case False
    then have "i < n" using Suc.prems(2) by simp
    with Suc.IH Suc.prems(1) have "snd (fold (twinStep st) [0..<n] tw) i = i" by simp
    then show ?thesis using False s by (simp add: f)
  qed
qed

lemma twinReps_chain: "i < n + 2 \<Longrightarrow> twinReps (chain n) i = i"
  unfolding twinReps_def chain_ind(1)
  by (rule twinFold_none) (simp_all add: chain_ind exInd_def)

text \<open>The coefficients of the father with his daughters, as the sweep computes them.\<close>

lemma roundEven_int: "roundEven (of_int n) = n"
  by (simp add: roundEven_def)

lemma ilog2_unit: "1 \<le> x \<Longrightarrow> x < 2 \<Longrightarrow> ilog2 x = 0"
  by (simp add: ilog2_def expoUp.simps)

lemma ilog2_half: "1 / 2 \<le> x \<Longrightarrow> x < 1 \<Longrightarrow> ilog2 x = - 1"
  by (simp add: ilog2_def expoDown.simps [of x] expoDown.simps [of "2 * x"])

lemma roundBin_exact:
  assumes x: "0 < x" and e: "emin \<le> ilog2 x" and k: "ilog2 x - int p + 1 = - int m"
    and m: "0 < m" and n: "x * 2 ^ m = of_int n"
  shows "roundBin p emin x = x"
proof -
  have a: "\<bar>x\<bar> = x" "sgn x = 1" "x \<noteq> 0" using x by simp_all
  have b: "max (ilog2 x) emin - int p + 1 = - int m" using e k by (simp add: max_def)
  have "roundBin p emin x = of_int (roundEven (x * 2 ^ m)) / 2 ^ m"
    using m by (simp add: roundBin_def Let_def a b)
  also have "\<dots> = of_int n / 2 ^ m" by (simp add: n roundEven_int)
  also have "\<dots> = x" using n [symmetric] by simp
  finally show ?thesis .
qed

lemma halfSum_chain:
  assumes "k < 24"
  shows "halfSum 1 (1 - 1 / 2 ^ k) = 1 - 1 / 2 ^ Suc k"
proof -
  define s :: rat where "s = 2 - 1 / 2 ^ k"
  have p: "(0::rat) < 1 / 2 ^ k" "(1::rat) / 2 ^ k \<le> 1"
    by (simp_all add: divide_le_eq_1)
  have s: "1 \<le> s" "s < 2" using p by (simp_all add: s_def)
  have d: "\<And>j. k \<le> j \<Longrightarrow> s * 2 ^ j = of_int (2 ^ Suc j - 2 ^ (j - k))"
  proof -
    fix j assume "k \<le> j"
    then have "(2::rat) ^ (j - k) = 2 ^ j / 2 ^ k" by (simp add: power_diff)
    then show "s * 2 ^ j = of_int (2 ^ Suc j - 2 ^ (j - k))"
      by (simp add: s_def algebra_simps)
  qed
  have f1: "toFloat s = s"
    unfolding toFloat_def
    by (rule roundBin_exact [where m = 23 and n = "2 ^ Suc 23 - 2 ^ (23 - k)"])
       (use s assms d [of 23] in \<open>simp_all add: ilog2_unit\<close>)
  have h: "1 / 2 \<le> s / 2" "s / 2 < 1" using s by simp_all
  have f2: "toDouble (s / 2) = s / 2"
    unfolding toDouble_def
    by (rule roundBin_exact [where m = 53 and n = "2 ^ Suc 52 - 2 ^ (52 - k)"])
       (use h s assms d [of 52] in \<open>simp_all add: ilog2_half\<close>)
  have f3: "toFloat (s / 2) = s / 2"
    unfolding toFloat_def
    by (rule roundBin_exact [where m = 24 and n = "2 ^ Suc 23 - 2 ^ (23 - k)"])
       (use h s assms d [of 23] in \<open>simp_all add: ilog2_half\<close>)
  have "halfSum 1 (1 - 1 / 2 ^ k) = toFloat (toDouble ((1 / 2) * toFloat s))"
    by (simp add: halfSum_def s_def)
  also have "\<dots> = s / 2" by (simp add: f1 f2 f3)
  also have "\<dots> = 1 - 1 / 2 ^ Suc k" by (simp add: s_def diff_divide_distrib)
  finally show ?thesis .
qed

lemma chain_rec:
  assumes r: "calcKin2 (chain n) = Some r"
  shows "tri (kin2 r) 0 0 = 1" and "tri (kin2 r) 1 0 = 0"
    and "\<And>i. 2 \<le> i \<Longrightarrow> i < n + 2 \<Longrightarrow> kin2 r i i = selfCoef (tri (kin2 r) 0 (i - 1))"
    and "\<And>i j. 2 \<le> i \<Longrightarrow> i < n + 2 \<Longrightarrow> j < i \<Longrightarrow>
           tri (kin2 r) i j = halfSum (tri (kin2 r) 0 j) (tri (kin2 r) (i - 1) j)"
proof -
  from kin2_recurrence [OF parentsFirst_chain, of n] r
  have rec: "\<And>i. i < NInd (chain n) \<Longrightarrow> itwin r i = i \<Longrightarrow>
         (founder (chain n) i \<longrightarrow>
            kin2 r i i = 1
          \<and> (\<forall>j < NInd (chain n). itwin r j = j \<and> founder (chain n) j \<and> j \<noteq> i \<longrightarrow> tri (kin2 r) i j = 0))
       \<and> (\<not> founder (chain n) i \<longrightarrow>
            kin2 r i i = selfCoef (tri (kin2 r) (itwin r (faSeq (chain n) i)) (itwin r (moSeq (chain n) i)))
          \<and> (\<forall>j < NInd (chain n). itwin r j = j \<and> (founder (chain n) j \<or> j < i) \<longrightarrow>
                tri (kin2 r) i j
                  = halfSum (tri (kin2 r) (itwin r (faSeq (chain n) i)) j)
                      (tri (kin2 r) (itwin r (moSeq (chain n) i)) j)))"
    by auto
  have tw: "\<And>i. i < n + 2 \<Longrightarrow> itwin r i = i"
    using calcKin2_Some(4) [OF r] by (simp add: twinReps_chain)
  have N: "NInd (chain n) = n + 2" by (rule chain_ind(1))
  have f0: "founder (chain n) 0" "founder (chain n) 1" by (simp_all add: chain_founder)
  have r0: "kin2 r 0 0 = 1 \<and> (\<forall>j < NInd (chain n). itwin r j = j \<and> founder (chain n) j \<and> j \<noteq> 0
      \<longrightarrow> tri (kin2 r) 0 j = 0)"
    using rec [of 0] tw [of 0] f0(1) N by simp
  show "tri (kin2 r) 0 0 = 1" using r0 by (simp add: tri_def)
  have "1 < NInd (chain n)" using N by simp
  with r0 tw [of 1] f0(2) have "tri (kin2 r) 0 1 = 0" by simp
  then show "tri (kin2 r) 1 0 = 0" by (simp add: tri_def max_def min_def)
  {
    fix i assume i: "2 \<le> i" "i < n + 2"
    note p = chain_par [OF i]
    have t: "itwin r i = i" "itwin r 0 = 0" "itwin r (i - 1) = i - 1"
      using tw [of i] tw [of 0] tw [of "i - 1"] i by simp_all
    have q: "kin2 r i i = selfCoef (tri (kin2 r) (itwin r (faSeq (chain n) i)) (itwin r (moSeq (chain n) i)))
          \<and> (\<forall>j < NInd (chain n). itwin r j = j \<and> (founder (chain n) j \<or> j < i) \<longrightarrow>
                tri (kin2 r) i j
                  = halfSum (tri (kin2 r) (itwin r (faSeq (chain n) i)) j)
                      (tri (kin2 r) (itwin r (moSeq (chain n) i)) j))"
      using rec [of i] t(1) p(1) i N by simp
    show "kin2 r i i = selfCoef (tri (kin2 r) 0 (i - 1))"
      using q p t by simp
    fix j assume j: "j < i"
    then have "j < NInd (chain n)" "itwin r j = j" using i N tw [of j] by simp_all
    with q j p t show "tri (kin2 r) i j = halfSum (tri (kin2 r) 0 j) (tri (kin2 r) (i - 1) j)"
      by simp
  }
qed

lemma chain_father:
  assumes r: "calcKin2 (chain n) = Some r"
  shows "k < n \<Longrightarrow> k < 24 \<Longrightarrow> tri (kin2 r) (Suc (Suc k)) 0 = 1 - 1 / 2 ^ Suc k"
proof (induction k)
  case 0
  have "tri (kin2 r) 2 0 = halfSum (tri (kin2 r) 0 0) (tri (kin2 r) (2 - 1) 0)"
    using 0 by (intro chain_rec(4) [OF r]) simp_all
  then have "tri (kin2 r) 2 0 = halfSum 1 (1 - 1 / 2 ^ 0)"
    using chain_rec(1,2) [OF r] by simp
  also have "\<dots> = 1 - 1 / 2 ^ Suc 0" by (rule halfSum_chain) simp
  finally show ?case by (simp add: numeral_2_eq_2)
next
  case (Suc k)
  then have ih: "tri (kin2 r) (Suc (Suc k)) 0 = 1 - 1 / 2 ^ Suc k" by simp
  have "tri (kin2 r) (Suc (Suc (Suc k))) 0
      = halfSum (tri (kin2 r) 0 0) (tri (kin2 r) (Suc (Suc (Suc k)) - 1) 0)"
    using Suc.prems by (intro chain_rec(4) [OF r]) simp_all
  then have "tri (kin2 r) (Suc (Suc (Suc k))) 0 = halfSum 1 (1 - 1 / 2 ^ Suc k)"
    using chain_rec(1) [OF r] ih by simp
  also have "\<dots> = 1 - 1 / 2 ^ Suc (Suc k)" using Suc.prems by (intro halfSum_chain) simp
  finally show ?case .
qed

lemma tri_sym: "tri K a b = tri K b a"
  by (simp add: tri_def max.commute min.commute)

text \<open>
  Claim C1 as stated fails where a store rounds. In the line of 24 daughters the
  father and the daughter before the last have the coefficient \<open>1 - 1/2^23\<close>; the self
  coefficient of the last daughter is stored as \<open>3/2\<close>, not as \<open>3/2 - 1/2^24\<close>.
\<close>

theorem calcKin2_recurrence_rounds:
  "parentsFirst (chain 24)
   \<and> \<not> founder (chain 24) 25 \<and> faSeq (chain 24) 25 = 0 \<and> moSeq (chain 24) 25 = 24
   \<and> itwin (the (calcKin2 (chain 24))) 25 = 25
   \<and> itwin (the (calcKin2 (chain 24))) 0 = 0
   \<and> itwin (the (calcKin2 (chain 24))) 24 = 24
   \<and> tri (kin2 (the (calcKin2 (chain 24)))) 0 24 = 1 - 1 / 2 ^ 23
   \<and> kin2 (the (calcKin2 (chain 24))) 25 25 = 3 / 2
   \<and> 1 + (1 / 2) * tri (kin2 (the (calcKin2 (chain 24)))) 0 24 = 3 / 2 - 1 / 2 ^ 24"
proof -
  from kin2_recurrence [OF parentsFirst_chain, of 24]
  obtain r where r: "calcKin2 (chain 24) = Some r" by blast
  have tw: "\<And>i. i < 26 \<Longrightarrow> itwin r i = i"
    using calcKin2_Some(4) [OF r] twinReps_chain [of _ 24] by simp
  have p: "\<not> founder (chain 24) 25" "faSeq (chain 24) 25 = 0" "moSeq (chain 24) 25 = 24"
    using chain_par [of 25 24] by simp_all
  have "tri (kin2 r) (Suc (Suc 22)) 0 = 1 - 1 / 2 ^ Suc 22"
    by (rule chain_father [OF r]) simp_all
  then have a: "tri (kin2 r) 0 24 = 1 - 1 / 2 ^ 23"
    by (simp add: tri_sym [of _ 0 24])
  have "kin2 r 25 25 = selfCoef (tri (kin2 r) 0 (25 - 1))"
    by (rule chain_rec(3) [OF r]) simp_all
  then have "kin2 r 25 25 = selfCoef (1 - 1 / 2 ^ 23)" using a by simp
  also have "\<dots> = 3 / 2" by (simp add: fl_eval)
  finally have b: "kin2 r 25 25 = 3 / 2" .
  have c: "1 + (1 / 2) * tri (kin2 r) 0 24 = 3 / 2 - 1 / 2 ^ 24"
    unfolding a by simp
  from parentsFirst_chain [of 24] p tw [of 25] tw [of 0] tw [of 24] a b c r
  show ?thesis by simp
qed

text \<open>
  Claim C6 as stated fails where a store rounds. In the line of 13 daughters the
  quarter of the products for the last two daughters is \<open>18864129/2^25\<close>, which has no
  \<open>float\<close>; the value of delta7 on their line is \<open>9211/16384\<close>.
\<close>

theorem calcKin2_delta7_rounds:
  "parentsFirst (chain 13)
   \<and> ped (indSeq (chain 13) 14) = ped (indSeq (chain 13) 13)
   \<and> itwin (the (calcKin2 (chain 13))) 14 \<noteq> itwin (the (calcKin2 (chain 13))) 13
   \<and> \<not> founder (chain 13) 14 \<and> \<not> founder (chain 13) 13
   \<and> (15, 14, 5 / 4 - 1 / 2 ^ 12, 9211 / 16384) \<in> set (phi2 (the (calcKin2 (chain 13))))
   \<and> (1 / 4) * (tri (kin2 (the (calcKin2 (chain 13)))) (faSeq (chain 13) 14) (faSeq (chain 13) 13)
                  * tri (kin2 (the (calcKin2 (chain 13)))) (moSeq (chain 13) 14) (moSeq (chain 13) 13)
                + tri (kin2 (the (calcKin2 (chain 13)))) (faSeq (chain 13) 14) (moSeq (chain 13) 13)
                  * tri (kin2 (the (calcKin2 (chain 13)))) (moSeq (chain 13) 14) (faSeq (chain 13) 13))
       = 18864129 / 33554432"
proof -
  from kin2_recurrence [OF parentsFirst_chain, of 13]
  obtain r where r: "calcKin2 (chain 13) = Some r" by blast
  have tw: "\<And>i. i < 15 \<Longrightarrow> itwin r i = i"
    using calcKin2_Some(4) [OF r] twinReps_chain [of _ 13] by simp
  have p14: "\<not> founder (chain 13) 14" "faSeq (chain 13) 14 = 0" "moSeq (chain 13) 14 = 13"
    using chain_par [of 14 13] by simp_all
  have p13: "\<not> founder (chain 13) 13" "faSeq (chain 13) 13 = 0" "moSeq (chain 13) 13 = 12"
    using chain_par [of 13 13] by simp_all
  have pd: "ped (indSeq (chain 13) 14) = ped (indSeq (chain 13) 13)"
    by (simp add: chain_ind exInd_def)
  have "tri (kin2 r) (Suc (Suc 9)) 0 = 1 - 1 / 2 ^ Suc 9"
    by (rule chain_father [OF r]) simp_all
  then have a11: "tri (kin2 r) 0 11 = 1 - 1 / 2 ^ 10" by (simp add: tri_sym [of _ 0 11])
  have "tri (kin2 r) (Suc (Suc 10)) 0 = 1 - 1 / 2 ^ Suc 10"
    by (rule chain_father [OF r]) simp_all
  then have a12: "tri (kin2 r) 0 12 = 1 - 1 / 2 ^ 11" by (simp add: tri_sym [of _ 0 12])
  have "tri (kin2 r) (Suc (Suc 11)) 0 = 1 - 1 / 2 ^ Suc 11"
    by (rule chain_father [OF r]) simp_all
  then have a13: "tri (kin2 r) 13 0 = 1 - 1 / 2 ^ 12" by simp
  have a00: "tri (kin2 r) 0 0 = 1" by (rule chain_rec(1) [OF r])
  have "kin2 r 12 12 = selfCoef (tri (kin2 r) 0 (12 - 1))"
    by (rule chain_rec(3) [OF r]) simp_all
  then have "kin2 r 12 12 = selfCoef (1 - 1 / 2 ^ 10)" using a11 by simp
  also have "\<dots> = 3 / 2 - 1 / 2 ^ 11" by (simp add: fl_eval)
  finally have s12: "tri (kin2 r) 12 12 = 3 / 2 - 1 / 2 ^ 11" by (simp add: tri_def)
  have "kin2 r 13 13 = selfCoef (tri (kin2 r) 0 (13 - 1))"
    by (rule chain_rec(3) [OF r]) simp_all
  then have "kin2 r 13 13 = selfCoef (1 - 1 / 2 ^ 11)" using a12 by simp
  also have "\<dots> = 3 / 2 - 1 / 2 ^ 12" by (simp add: fl_eval)
  finally have s13: "tri (kin2 r) 13 13 = 3 / 2 - 1 / 2 ^ 12" by (simp add: tri_def)
  have "tri (kin2 r) 13 12 = halfSum (tri (kin2 r) 0 12) (tri (kin2 r) (13 - 1) 12)"
    by (rule chain_rec(4) [OF r]) simp_all
  then have "tri (kin2 r) 13 12 = halfSum (1 - 1 / 2 ^ 11) (3 / 2 - 1 / 2 ^ 11)"
    using a12 s12 by simp
  also have "\<dots> = 5 / 4 - 1 / 2 ^ 11" by (simp add: fl_eval)
  finally have b13: "tri (kin2 r) 13 12 = 5 / 4 - 1 / 2 ^ 11" .
  have "tri (kin2 r) 14 13 = halfSum (tri (kin2 r) 0 13) (tri (kin2 r) (14 - 1) 13)"
    by (rule chain_rec(4) [OF r]) simp_all
  then have "tri (kin2 r) 14 13 = halfSum (1 - 1 / 2 ^ 12) (3 / 2 - 1 / 2 ^ 12)"
    using a13 s13 by (simp add: tri_sym [of _ 0 13])
  also have "\<dots> = 5 / 4 - 1 / 2 ^ 12" by (simp add: fl_eval)
  finally have k: "kin2 r 14 13 = 5 / 4 - 1 / 2 ^ 12" by (simp add: tri_def)
  have d: "delta7 (chain 13) (itwin r) (kin2 r) 14 13 = 9211 / 16384"
  proof -
    have "delta7 (chain 13) (itwin r) (kin2 r) 14 13
        = quarterProd (tri (kin2 r) 0 0) (tri (kin2 r) 13 12) (tri (kin2 r) 0 12) (tri (kin2 r) 13 0)"
      using p14 p13 tw [of 14] tw [of 13] by (simp add: delta7_def Let_def founder_def)
    also have "\<dots> = quarterProd 1 (5 / 4 - 1 / 2 ^ 11) (1 - 1 / 2 ^ 11) (1 - 1 / 2 ^ 12)"
      by (simp only: a00 b13 a12 a13)
    also have "\<dots> = 9211 / 16384" by (simp add: fl_eval)
    finally show ?thesis .
  qed
  have n: "(13::nat) < 14" "14 < NInd (chain 13)" by (simp_all add: chain_ind)
  have l: "(15, 14, 5 / 4 - 1 / 2 ^ 12, 9211 / 16384) \<in> set (phi2 r)"
    using phi2File_mem [OF n, of "5 / 4 - 1 / 2 ^ 12" "9211 / 16384" "itwin r" "kin2 r"]
      calcKin2_Some(3) [OF r] pd k d
    by simp
  have e: "(1 / 4) * (tri (kin2 r) 0 0 * tri (kin2 r) 13 12 + tri (kin2 r) 0 12 * tri (kin2 r) 13 0)
      = 18864129 / 33554432"
    by (simp only: a00 b13 a12 a13) simp
  from parentsFirst_chain [of 13] pd p14 p13 tw [of 14] tw [of 13] l e r
  show ?thesis by simp
qed


section \<open>ibdprep: the generic sort (qSort)\<close>

text \<open>
  \<open>qSort\<close> sorts the index array \<open>ord\<close> by the keys \<open>vals[ord[.]]\<close> with an iterative
  quicksort: Hoare's partition around the key at \<open>(l+h)/2+1\<close> and an explicit stack of
  pending ranges. Keys are compared by \<open>strcmp\<close> or, in numeric mode, by \<open>atoi\<close>.
\<close>

text \<open>\<open>strcmp(a, b) < 0\<close>: bytewise, as unsigned characters.\<close>

fun strLess :: "string \<Rightarrow> string \<Rightarrow> bool" where
  "strLess [] [] = False"
| "strLess [] (y # ys) = True"
| "strLess (x # xs) [] = False"
| "strLess (x # xs) (y # ys) = (if x = y then strLess xs ys else (of_char x :: nat) < of_char y)"

text \<open>
  \<open>atoi\<close>: white space, an optional sign, then the leading digits. The C standard
  leaves the result undefined when the number does not fit an \<open>int\<close>. The model follows
  the GNU C library with a 64-bit \<open>long\<close>, where \<open>atoi\<close> is \<open>strtol\<close> converted to
  \<open>int\<close>: \<open>strtol\<close> stops at \<open>LONG_MIN\<close> and \<open>LONG_MAX\<close>, and the conversion keeps the
  low 32 bits.
\<close>

definition isspace :: "char \<Rightarrow> bool" where
  "isspace ch \<longleftrightarrow> ch = CHR '' '' \<or> (9 \<le> (of_char ch :: nat) \<and> (of_char ch :: nat) \<le> 13)"

definition isdigit :: "char \<Rightarrow> bool" where
  "isdigit ch \<longleftrightarrow> 48 \<le> (of_char ch :: nat) \<and> (of_char ch :: nat) \<le> 57"

fun digitsVal :: "string \<Rightarrow> int \<Rightarrow> int" where
  "digitsVal [] acc = acc"
| "digitsVal (ch # cs) acc =
     (if isdigit ch then digitsVal cs (10 * acc + (int (of_char ch) - 48)) else acc)"

definition strtol :: "string \<Rightarrow> int" where
  "strtol s =
     (let v = (case dropWhile isspace s of
                 [] \<Rightarrow> 0
               | ch # cs \<Rightarrow>
                   if ch = CHR ''-'' then - digitsVal cs 0
                   else if ch = CHR ''+'' then digitsVal cs 0
                   else digitsVal (ch # cs) 0)
      in max (- (2 ^ 63)) (min (2 ^ 63 - 1) v))"

definition toInt :: "int \<Rightarrow> int" where
  "toInt v = (v + 2 ^ 31) mod 2 ^ 32 - 2 ^ 31"

definition atoi :: "string \<Rightarrow> int" where
  "atoi s = toInt (strtol s)"

definition keyLess :: "bool \<Rightarrow> string \<Rightarrow> string \<Rightarrow> bool" where
  "keyLess numeric a b = (if numeric then atoi a < atoi b else strLess a b)"

datatype qfail = StackSizeExceeded | IndexOutOfRange

text \<open>Division of C ints by two: towards zero.\<close>

definition half :: "int \<Rightarrow> int" where
  "half x = (if x < 0 then - ((- x) div 2) else x div 2)"

definition STKSIZE :: nat where
  "STKSIZE = 1000"

text \<open>
  The two scans of the partition. Reading \<open>ord\<close> outside \<open>0 .. nvals-1\<close> is undefined
  in C; the model stops there with \<open>IndexOutOfRange\<close>.
\<close>

function scanUp :: "bool \<Rightarrow> string list \<Rightarrow> nat list \<Rightarrow> string \<Rightarrow> int \<Rightarrow> qfail + int" where
  "scanUp numeric vals ord mid i =
     (if i < 0 \<or> int (length ord) \<le> i then Inl IndexOutOfRange
      else if keyLess numeric (vals ! (ord ! nat i)) mid then scanUp numeric vals ord mid (i + 1)
      else Inr i)"
  by pat_completeness auto
termination
  by (relation "measure (\<lambda>(numeric, vals, ord, mid, i). nat (int (length ord) - i))") auto

function scanDown :: "bool \<Rightarrow> string list \<Rightarrow> nat list \<Rightarrow> string \<Rightarrow> int \<Rightarrow> qfail + int" where
  "scanDown numeric vals ord mid j =
     (if j < 0 \<or> int (length ord) \<le> j then Inl IndexOutOfRange
      else if keyLess numeric mid (vals ! (ord ! nat j)) then scanDown numeric vals ord mid (j - 1)
      else Inr j)"
  by pat_completeness auto
termination
  by (relation "measure (\<lambda>(numeric, vals, ord, mid, j). nat (j + 1))") auto

declare scanUp.simps [simp del] scanDown.simps [simp del]

lemma scanUp_ge: "scanUp numeric vals ord mid i = Inr i' \<Longrightarrow> i \<le> i'"
proof (induction numeric vals ord mid i rule: scanUp.induct)
  case (1 numeric vals ord mid i)
  then show ?case
    by (subst (asm) (2) scanUp.simps) (auto split: if_splits)
qed

lemma scanDown_le: "scanDown numeric vals ord mid j = Inr j' \<Longrightarrow> j' \<le> j"
proof (induction numeric vals ord mid j rule: scanDown.induct)
  case (1 numeric vals ord mid j)
  then show ?case
    by (subst (asm) (2) scanDown.simps) (auto split: if_splits)
qed

text \<open>
  The inner \<open>do ... while (i <= j)\<close>: both scans, then the swap of \<open>ord[i]\<close> and
  \<open>ord[j]\<close> when they have not crossed.
\<close>

definition swapOrd :: "nat list \<Rightarrow> nat \<Rightarrow> nat \<Rightarrow> nat list" where
  "swapOrd ord i j = ord[i := ord ! j, j := ord ! i]"

definition partStep :: "bool \<Rightarrow> string list \<Rightarrow> string \<Rightarrow> int \<times> int \<times> nat list
    \<Rightarrow> qfail + int \<times> int \<times> nat list" where
  "partStep numeric vals mid s =
     (case s of (i, j, ord) \<Rightarrow>
        (case scanUp numeric vals ord mid i of
           Inl e \<Rightarrow> Inl e
         | Inr i1 \<Rightarrow>
             (case scanDown numeric vals ord mid j of
                Inl e \<Rightarrow> Inl e
              | Inr j1 \<Rightarrow>
                  if i1 \<le> j1 then Inr (i1 + 1, j1 - 1, swapOrd ord (nat i1) (nat j1))
                  else Inr (i1, j1, ord))))"

lemma partStep_shrinks:
  assumes "partStep numeric vals mid (i, j, ord) = Inr (i', j', ord')" "i' \<le> j'"
  shows "j' - i' < j - i"
proof -
  from assms obtain i1 j1 where s: "scanUp numeric vals ord mid i = Inr i1"
      "scanDown numeric vals ord mid j = Inr j1"
    by (auto simp: partStep_def split: sum.splits)
  from scanUp_ge [OF s(1)] scanDown_le [OF s(2)] assms s show ?thesis
    by (auto simp: partStep_def split: if_splits)
qed

function partLoop :: "bool \<Rightarrow> string list \<Rightarrow> string \<Rightarrow> int \<times> int \<times> nat list
    \<Rightarrow> qfail + int \<times> int \<times> nat list" where
  "partLoop numeric vals mid s =
     (case partStep numeric vals mid s of
        Inl e \<Rightarrow> Inl e
      | Inr s' \<Rightarrow> if fst s' \<le> fst (snd s') then partLoop numeric vals mid s' else Inr s')"
  by pat_completeness auto
termination
proof (relation "measure (\<lambda>(numeric, vals, mid, i, j, ord). nat (j - i + 1))")
  show "wf (measure (\<lambda>(numeric, vals, mid, i, j, ord). nat (j - i + 1)))" by simp
next
  fix numeric vals mid and s s' :: "int \<times> int \<times> nat list"
  assume a: "partStep numeric vals mid s = Inr s'" "fst s' \<le> fst (snd s')"
  obtain i j ord where s: "s = (i, j, ord)" by (cases s)
  obtain i' j' ord' where s': "s' = (i', j', ord')" by (cases s')
  from partStep_shrinks [of numeric vals mid i j ord i' j' ord'] a
  have "j' - i' < j - i" "i' \<le> j'" by (simp_all add: s s')
  then show "((numeric, vals, mid, s'), (numeric, vals, mid, s))
      \<in> measure (\<lambda>(numeric, vals, mid, i, j, ord). nat (j - i + 1))"
    by (simp add: s s')
qed

declare partLoop.simps [simp del]

text \<open>
  The two outer loops. The range \<open>l .. h\<close> is partitioned; the right part \<open>i .. h\<close> is
  pushed if it has more than one element; the loop goes on with the left part \<open>l .. j\<close>
  while \<open>l < j\<close>, and then with the range on top of the stack, until the stack is empty.
  The stack is the list of the pairs \<open>(lo[t], hi[t])\<close>, top first; its index \<open>t\<close> is the
  length minus one.
\<close>

partial_function (option) qLoop :: "bool \<Rightarrow> string list \<Rightarrow> int \<Rightarrow> int \<Rightarrow> (int \<times> int) list
    \<Rightarrow> nat list \<Rightarrow> (qfail + nat list) option" where
  "qLoop numeric vals l h stack ord =
     (if half (l + h) + 1 < 0 \<or> int (length ord) \<le> half (l + h) + 1 then Some (Inl IndexOutOfRange)
      else
        (case partLoop numeric vals (vals ! (ord ! nat (half (l + h) + 1))) (l, h, ord) of
           Inl e \<Rightarrow> Some (Inl e)
         | Inr (i, j, ord') \<Rightarrow>
             if i < h \<and> STKSIZE \<le> length stack then Some (Inl StackSizeExceeded)
             else
               (let stack' = (if i < h then (i, h) # stack else stack) in
                if l < j then qLoop numeric vals l j stack' ord'
                else
                  (case stack' of
                     [] \<Rightarrow> Some (Inr ord')
                   | (lo, hi) # rest \<Rightarrow> qLoop numeric vals lo hi rest ord'))))"

definition qSort :: "string list \<Rightarrow> nat \<Rightarrow> nat list \<Rightarrow> bool \<Rightarrow> (qfail + nat list) option" where
  "qSort vals vlen ord numeric =
     (if length vals = 0 \<or> vlen = 0 then Some (Inr ord)
      else if length vals = 1 then Some (Inr [0])
      else qLoop numeric vals 0 (int (length vals) - 1) [] [0..<length vals])"


text \<open>
  Stability, as the specification words it: indices whose keys compare equal come out
  in their input order.
\<close>

definition stableOrd :: "bool \<Rightarrow> string list \<Rightarrow> nat list \<Rightarrow> bool" where
  "stableOrd numeric vals ord \<longleftrightarrow>
     (\<forall>a < length ord. \<forall>b < length ord.
        a < b \<and> \<not> keyLess numeric (vals ! (ord ! a)) (vals ! (ord ! b))
              \<and> \<not> keyLess numeric (vals ! (ord ! b)) (vals ! (ord ! a))
        \<longrightarrow> ord ! a < ord ! b)"

lemma mset_swapOrd: "a < length ord \<Longrightarrow> b < length ord \<Longrightarrow> mset (swapOrd ord a b) = mset ord"
  unfolding swapOrd_def by (simp add: mset_swap)


subsection \<open>The sort returns\<close>

lemma strLess_irrefl: "\<not> strLess a a"
  by (induction a) simp_all

lemma keyLess_irrefl: "\<not> keyLess numeric a a"
  by (simp add: keyLess_def strLess_irrefl)

text \<open>A scan stops at the latest on a key that is not on its side of the pivot.\<close>

lemma scanUp_stops:
  assumes "0 \<le> i" "i \<le> a" "a < int (length ord)" "\<not> keyLess numeric (vals ! (ord ! nat a)) mid"
  shows "\<exists>i'. scanUp numeric vals ord mid i = Inr i' \<and> i \<le> i' \<and> i' \<le> a
            \<and> \<not> keyLess numeric (vals ! (ord ! nat i')) mid"
  using assms
proof (induction "nat (a - i)" arbitrary: i)
  case 0
  then have "i = a" by simp
  then show ?case using 0 by (subst scanUp.simps) simp
next
  case (Suc d)
  then have r: "\<not> (i < 0 \<or> int (length ord) \<le> i)" by simp
  show ?case
  proof (cases "keyLess numeric (vals ! (ord ! nat i)) mid")
    case False
    then have "scanUp numeric vals ord mid i = Inr i" using r by (subst scanUp.simps) simp
    then show ?thesis using False Suc.prems by simp
  next
    case True
    then have e: "scanUp numeric vals ord mid i = scanUp numeric vals ord mid (i + 1)"
      using r by (subst scanUp.simps) simp
    have ne: "i \<noteq> a" using True Suc.prems(4) by auto
    have "d = nat (a - (i + 1))" using Suc.hyps(2) by simp
    from Suc.hyps(1) [OF this] Suc.prems ne
    obtain i' where "scanUp numeric vals ord mid (i + 1) = Inr i'" "i + 1 \<le> i'" "i' \<le> a"
        "\<not> keyLess numeric (vals ! (ord ! nat i')) mid"
      by auto
    then show ?thesis using e by auto
  qed
qed

lemma scanDown_stops:
  assumes "0 \<le> b" "b \<le> j" "j < int (length ord)" "\<not> keyLess numeric mid (vals ! (ord ! nat b))"
  shows "\<exists>j'. scanDown numeric vals ord mid j = Inr j' \<and> b \<le> j' \<and> j' \<le> j
            \<and> \<not> keyLess numeric mid (vals ! (ord ! nat j'))"
  using assms
proof (induction "nat (j - b)" arbitrary: j)
  case 0
  then have "j = b" by simp
  then show ?case using 0 by (subst scanDown.simps) simp
next
  case (Suc d)
  then have r: "\<not> (j < 0 \<or> int (length ord) \<le> j)" by simp
  show ?case
  proof (cases "keyLess numeric mid (vals ! (ord ! nat j))")
    case False
    then have "scanDown numeric vals ord mid j = Inr j" using r by (subst scanDown.simps) simp
    then show ?thesis using False Suc.prems by simp
  next
    case True
    then have e: "scanDown numeric vals ord mid j = scanDown numeric vals ord mid (j - 1)"
      using r by (subst scanDown.simps) simp
    have ne: "j \<noteq> b" using True Suc.prems(4) by auto
    have "d = nat (j - 1 - b)" using Suc.hyps(2) by simp
    from Suc.hyps(1) [OF this] Suc.prems ne
    obtain j' where "scanDown numeric vals ord mid (j - 1) = Inr j'" "b \<le> j'" "j' \<le> j - 1"
        "\<not> keyLess numeric mid (vals ! (ord ! nat j'))"
      by auto
    then show ?thesis using e by auto
  qed
qed

lemma length_swapOrd: "length (swapOrd ord a b) = length ord"
  by (simp add: swapOrd_def)

lemma swapOrd_nth:
  "a < length ord \<Longrightarrow> b < length ord \<Longrightarrow> swapOrd ord a b ! a = ord ! b \<and> swapOrd ord a b ! b = ord ! a"
  by (simp add: swapOrd_def nth_list_update)

text \<open>
  The partition of \<open>l .. h\<close>. Each scan has a key to stop on: at first the pivot, later
  the keys the last swap has put in place. The result leaves \<open>j < i\<close>; when the first
  round finds the pivot between \<open>i\<close> and \<open>j\<close> it swaps, so both bounds move.
\<close>

definition partInv :: "bool \<Rightarrow> string list \<Rightarrow> string \<Rightarrow> int \<Rightarrow> int \<Rightarrow> int \<times> int \<times> nat list \<Rightarrow> bool" where
  "partInv numeric vals mid l h s \<longleftrightarrow>
     (case s of (i, j, ord) \<Rightarrow>
        0 \<le> l \<and> l \<le> i \<and> j \<le> h \<and> h < int (length ord)
        \<and> (\<exists>a. i \<le> a \<and> a \<le> h \<and> \<not> keyLess numeric (vals ! (ord ! nat a)) mid)
        \<and> (\<exists>b. l \<le> b \<and> b \<le> j \<and> \<not> keyLess numeric mid (vals ! (ord ! nat b))))"

lemma partLoop_returns:
  "partInv numeric vals mid l h s \<Longrightarrow>
   \<exists>i' j' ord'. partLoop numeric vals mid s = Inr (i', j', ord')
      \<and> j' < i' \<and> fst s \<le> i' \<and> j' \<le> fst (snd s)
      \<and> length ord' = length (snd (snd s)) \<and> mset ord' = mset (snd (snd s))
      \<and> ((\<exists>p. fst s \<le> p \<and> p \<le> fst (snd s)
              \<and> \<not> keyLess numeric (vals ! (snd (snd s) ! nat p)) mid
              \<and> \<not> keyLess numeric mid (vals ! (snd (snd s) ! nat p)))
           \<longrightarrow> fst s < i' \<and> j' < fst (snd s))"
proof (induction numeric vals mid s rule: partLoop.induct)
  case (1 numeric vals mid s)
  obtain i j ord where s: "s = (i, j, ord)" by (cases s)
  from "1.prems" obtain a b where
    g: "0 \<le> l" "l \<le> i" "j \<le> h" "h < int (length ord)"
    and a: "i \<le> a" "a \<le> h" "\<not> keyLess numeric (vals ! (ord ! nat a)) mid"
    and b: "l \<le> b" "b \<le> j" "\<not> keyLess numeric mid (vals ! (ord ! nat b))"
    by (auto simp: partInv_def s)
  from scanUp_stops [of i a ord numeric vals mid] g a
  obtain i1 where u: "scanUp numeric vals ord mid i = Inr i1" "i \<le> i1" "i1 \<le> a"
      "\<not> keyLess numeric (vals ! (ord ! nat i1)) mid"
    by auto
  from scanDown_stops [of b j ord numeric mid vals] g b
  obtain j1 where d: "scanDown numeric vals ord mid j = Inr j1" "b \<le> j1" "j1 \<le> j"
      "\<not> keyLess numeric mid (vals ! (ord ! nat j1))"
    by auto
  have common: "\<And>p. i \<le> p \<Longrightarrow> p \<le> j \<Longrightarrow> \<not> keyLess numeric (vals ! (ord ! nat p)) mid
      \<Longrightarrow> \<not> keyLess numeric mid (vals ! (ord ! nat p)) \<Longrightarrow> i1 \<le> p \<and> p \<le> j1"
  proof -
    fix p assume p: "i \<le> p" "p \<le> j" "\<not> keyLess numeric (vals ! (ord ! nat p)) mid"
      "\<not> keyLess numeric mid (vals ! (ord ! nat p))"
    from scanUp_stops [of i p ord numeric vals mid] p g
    obtain i2 where "scanUp numeric vals ord mid i = Inr i2" "i2 \<le> p" by auto
    moreover from scanDown_stops [of p j ord numeric mid vals] p g
    obtain j2 where "scanDown numeric vals ord mid j = Inr j2" "p \<le> j2" by auto
    ultimately show "i1 \<le> p \<and> p \<le> j1" using u(1) d(1) by simp
  qed
  show ?case
  proof (cases "i1 \<le> j1")
    case False
    then have st: "partStep numeric vals mid s = Inr (i1, j1, ord)"
      by (simp add: partStep_def s u d)
    then have "partLoop numeric vals mid s = Inr (i1, j1, ord)"
      using False by (subst partLoop.simps) simp
    moreover have "\<not> (\<exists>p. i \<le> p \<and> p \<le> j \<and> \<not> keyLess numeric (vals ! (ord ! nat p)) mid
              \<and> \<not> keyLess numeric mid (vals ! (ord ! nat p)))"
      using common False by force
    then have "(\<exists>p. i \<le> p \<and> p \<le> j \<and> \<not> keyLess numeric (vals ! (ord ! nat p)) mid
              \<and> \<not> keyLess numeric mid (vals ! (ord ! nat p))) \<longrightarrow> i < i1 \<and> j1 < j"
      by blast
    ultimately show ?thesis using False u d unfolding s fst_conv snd_conv by simp
  next
    case True
    define ord1 where "ord1 = swapOrd ord (nat i1) (nat j1)"
    have r1: "0 \<le> i1" "i1 < int (length ord)" "0 \<le> j1" "j1 < int (length ord)"
      using g u d a b by auto
    have st: "partStep numeric vals mid s = Inr (i1 + 1, j1 - 1, ord1)"
      using True by (simp add: partStep_def s u d ord1_def)
    have m1: "mset ord1 = mset ord" "length ord1 = length ord"
      using r1 by (simp_all add: ord1_def mset_swapOrd length_swapOrd)
    have sw: "ord1 ! nat i1 = ord ! nat j1" "ord1 ! nat j1 = ord ! nat i1"
      using swapOrd_nth [of "nat i1" ord "nat j1"] r1 by (simp_all add: ord1_def)
    show ?thesis
    proof (cases "i1 + 1 \<le> j1 - 1")
      case False
      then have "partLoop numeric vals mid s = Inr (i1 + 1, j1 - 1, ord1)"
        using st by (subst partLoop.simps) simp
      then show ?thesis using False True u d m1 by (simp add: s)
    next
      case cont: True
      have inv1: "partInv numeric vals mid l h (i1 + 1, j1 - 1, ord1)"
        unfolding partInv_def
      proof (simp only: prod.case, intro conjI)
        show "0 \<le> l" by (rule g)
        show "l \<le> i1 + 1" using g u by simp
        show "j1 - 1 \<le> h" using g d by simp
        show "h < int (length ord1)" using g m1 by simp
        show "\<exists>a. i1 + 1 \<le> a \<and> a \<le> h \<and> \<not> keyLess numeric (vals ! (ord1 ! nat a)) mid"
          using cont d g u sw by (intro exI [of _ j1]) simp
        show "\<exists>b. l \<le> b \<and> b \<le> j1 - 1 \<and> \<not> keyLess numeric mid (vals ! (ord1 ! nat b))"
          using cont d g u sw by (intro exI [of _ i1]) simp
      qed
      have c: "fst (i1 + 1, j1 - 1, ord1) \<le> fst (snd (i1 + 1, j1 - 1, ord1))" using cont by simp
      from "1.IH" [OF st c inv1]
      obtain i' j' ord' where res: "partLoop numeric vals mid (i1 + 1, j1 - 1, ord1) = Inr (i', j', ord')"
          "j' < i'" "i1 + 1 \<le> i'" "j' \<le> j1 - 1" "length ord' = length ord1" "mset ord' = mset ord1"
        by auto
      have "partLoop numeric vals mid s = Inr (i', j', ord')"
        using st cont res(1) by (subst partLoop.simps) simp
      then show ?thesis using res u d m1 by (simp add: s)
    qed
  qed
qed

text \<open>
  The pending ranges: the one in hand and those on the stack. Each has at least two
  elements and lies in \<open>ord\<close>; a round replaces the range in hand by parts of it, so
  the sizes add up to no more than the length of \<open>ord\<close>, and \<open>work\<close> decreases.
\<close>

definition rangeOK :: "nat \<Rightarrow> int \<times> int \<Rightarrow> bool" where
  "rangeOK n r \<longleftrightarrow> 0 \<le> fst r \<and> fst r < snd r \<and> snd r < int n"

definition rsize :: "int \<times> int \<Rightarrow> nat" where
  "rsize r = nat (snd r - fst r + 1)"

definition sizes :: "(int \<times> int) list \<Rightarrow> nat" where
  "sizes rs = sum_list (map rsize rs)"

definition work :: "(int \<times> int) list \<Rightarrow> nat" where
  "work rs = sum_list (map (\<lambda>r. 2 * rsize r - 1) rs)"

lemma sizes_ge: "\<forall>r \<in> set rs. rangeOK n r \<Longrightarrow> 2 * length rs \<le> sizes rs"
proof (induction rs)
  case Nil
  show ?case by (simp add: sizes_def)
next
  case (Cons r rs)
  then have "fst r < snd r" by (simp add: rangeOK_def)
  then have "2 \<le> rsize r" unfolding rsize_def by linarith
  moreover have "2 * length rs \<le> sizes rs" using Cons by simp
  ultimately show ?case by (simp add: sizes_def)
qed

lemma half_mid:
  assumes "0 \<le> l" "l < h"
  shows "l < half (l + h) + 1" "half (l + h) + 1 \<le> h"
  using assms by (simp_all add: half_def)

lemma qLoop_returns:
  assumes "\<forall>r \<in> set ((l, h) # stack). rangeOK (length ord) r"
    and "sizes ((l, h) # stack) \<le> length ord"
  shows "\<exists>r. qLoop numeric vals l h stack ord = Some r
           \<and> (r = Inl StackSizeExceeded \<or> (\<exists>ord'. r = Inr ord' \<and> mset ord' = mset ord))
           \<and> (length ord \<le> 2 * STKSIZE \<longrightarrow> r \<noteq> Inl StackSizeExceeded)"
  using assms
proof (induction "work ((l, h) # stack)" arbitrary: l h stack ord rule: less_induct)
  case less
  let ?n = "length ord"
  let ?p = "half (l + h) + 1"
  let ?mid = "vals ! (ord ! nat ?p)"
  have lh: "0 \<le> l" "l < h" "h < int ?n" and stk: "\<forall>r \<in> set stack. rangeOK ?n r"
    using less.prems(1) by (simp_all add: rangeOK_def)
  note p = half_mid [OF lh(1,2)]
  have rng: "\<not> (?p < 0 \<or> int ?n \<le> ?p)" using p lh by simp
  have "partInv numeric vals ?mid l h (l, h, ord)"
    unfolding partInv_def
  proof (simp only: prod.case, intro conjI)
    show "0 \<le> l" "l \<le> l" "h \<le> h" "h < int ?n" using lh by simp_all
    show "\<exists>a. l \<le> a \<and> a \<le> h \<and> \<not> keyLess numeric (vals ! (ord ! nat a)) ?mid"
      using p by (intro exI [of _ ?p]) (simp add: keyLess_irrefl)
    show "\<exists>b. l \<le> b \<and> b \<le> h \<and> \<not> keyLess numeric ?mid (vals ! (ord ! nat b))"
      using p by (intro exI [of _ ?p]) (simp add: keyLess_irrefl)
  qed
  from partLoop_returns [OF this]
  obtain i j ord1 where pl: "partLoop numeric vals ?mid (l, h, ord) = Inr (i, j, ord1)"
    and ji: "j < i" and len: "length ord1 = ?n" and ms: "mset ord1 = mset ord"
    and pr: "(\<exists>p. l \<le> p \<and> p \<le> h \<and> \<not> keyLess numeric (vals ! (ord ! nat p)) ?mid
              \<and> \<not> keyLess numeric ?mid (vals ! (ord ! nat p))) \<longrightarrow> l < i \<and> j < h"
    by auto
  have "\<exists>p. l \<le> p \<and> p \<le> h \<and> \<not> keyLess numeric (vals ! (ord ! nat p)) ?mid
              \<and> \<not> keyLess numeric ?mid (vals ! (ord ! nat p))"
    using p by (intro exI [of _ ?p]) (simp add: keyLess_irrefl)
  with pr have li: "l < i" and jh: "j < h" by simp_all
  define stack' where "stack' = (if i < h then (i, h) # stack else stack)"
  have stk': "\<forall>r \<in> set stack'. rangeOK ?n r"
    using stk lh li by (simp add: stack'_def rangeOK_def)
  have w0: "work ((l, h) # stack) = 2 * nat (h - l + 1) - 1 + work stack"
    by (simp add: work_def rsize_def)
  have s0: "sizes ((l, h) # stack) = nat (h - l + 1) + sizes stack"
    by (simp add: sizes_def rsize_def)
  show ?case
  proof (cases "i < h \<and> STKSIZE \<le> length stack")
    case True
    then have e: "qLoop numeric vals l h stack ord = Some (Inl StackSizeExceeded)"
      using rng pl by (subst qLoop.simps) simp
    have "2 * length stack \<le> sizes stack" using stk by (rule sizes_ge)
    moreover have "3 \<le> nat (h - l + 1)" using li True by linarith
    ultimately have "2 * length stack + 3 \<le> ?n" using less.prems(2) s0 by simp
    then have "\<not> ?n \<le> 2 * STKSIZE" using True by simp
    then show ?thesis using e by simp
  next
    case ns: False
    have e: "qLoop numeric vals l h stack ord
        = (if l < j then qLoop numeric vals l j stack' ord1
           else (case stack' of [] \<Rightarrow> Some (Inr ord1)
                 | (lo, hi) # rest \<Rightarrow> qLoop numeric vals lo hi rest ord1))"
      using rng pl ns unfolding stack'_def by (subst qLoop.simps) (auto simp: Let_def)
    have ws: "work stack' \<le> work stack + (2 * nat (h - i + 1) - 1)" "i < h \<or> work stack' = work stack"
      by (auto simp: stack'_def work_def rsize_def)
    have ss: "sizes stack' \<le> sizes stack + nat (h - i + 1)" "i < h \<or> sizes stack' = sizes stack"
      by (auto simp: stack'_def sizes_def rsize_def)
    show ?thesis
    proof (cases "l < j")
      case True
      have a: "\<forall>r \<in> set ((l, j) # stack'). rangeOK (length ord1) r"
        using stk' lh jh True by (simp add: rangeOK_def len)
      have b: "sizes ((l, j) # stack') \<le> length ord1"
      proof -
        have "sizes ((l, j) # stack') = nat (j - l + 1) + sizes stack'"
          by (simp add: sizes_def rsize_def)
        also have "\<dots> \<le> nat (h - l + 1) + sizes stack"
          using ss ji jh li lh True by (cases "i < h") auto
        finally show ?thesis using less.prems(2) s0 len by simp
      qed
      have c: "work ((l, j) # stack') < work ((l, h) # stack)"
      proof -
        have "work ((l, j) # stack') = 2 * nat (j - l + 1) - 1 + work stack'"
          by (simp add: work_def rsize_def)
        also have "\<dots> < 2 * nat (h - l + 1) - 1 + work stack"
          using ws ji jh li lh True by (cases "i < h") auto
        finally show ?thesis using w0 by simp
      qed
      from less.hyps [OF c a b]
      obtain r where "qLoop numeric vals l j stack' ord1 = Some r"
          "r = Inl StackSizeExceeded \<or> (\<exists>ord'. r = Inr ord' \<and> mset ord' = mset ord1)"
          "length ord1 \<le> 2 * STKSIZE \<longrightarrow> r \<noteq> Inl StackSizeExceeded"
        by blast
      then show ?thesis using e True ms len by auto
    next
      case False
      show ?thesis
      proof (cases stack')
        case Nil
        then have "qLoop numeric vals l h stack ord = Some (Inr ord1)"
          using e False by simp
        then show ?thesis using ms by simp
      next
        case (Cons top rest)
        obtain lo hi where top: "top = (lo, hi)" by (cases top)
        have e2: "qLoop numeric vals l h stack ord = qLoop numeric vals lo hi rest ord1"
          using e False Cons top by simp
        have a: "\<forall>r \<in> set ((lo, hi) # rest). rangeOK (length ord1) r"
          using stk' Cons top by (simp add: len)
        have b: "sizes ((lo, hi) # rest) \<le> length ord1"
        proof -
          have "sizes stack' \<le> nat (h - l + 1) + sizes stack"
            using ss li lh by (cases "i < h") auto
          then show ?thesis using less.prems(2) s0 len Cons top by simp
        qed
        have c: "work ((lo, hi) # rest) < work ((l, h) # stack)"
        proof -
          have "work stack' < 2 * nat (h - l + 1) - 1 + work stack"
            using ws li lh by (cases "i < h") auto
          then show ?thesis using w0 Cons top by simp
        qed
        from less.hyps [OF c a b]
        obtain r where "qLoop numeric vals lo hi rest ord1 = Some r"
            "r = Inl StackSizeExceeded \<or> (\<exists>ord'. r = Inr ord' \<and> mset ord' = mset ord1)"
            "length ord1 \<le> 2 * STKSIZE \<longrightarrow> r \<noteq> Inl StackSizeExceeded"
          by blast
        then show ?thesis using e2 ms len by auto
      qed
    qed
  qed
qed

lemma qSort_returns:
  assumes ne: "vals \<noteq> []" "vlen \<noteq> 0"
  shows "\<exists>x. qSort vals vlen ord0 numeric = Some x
           \<and> (x = Inl StackSizeExceeded \<or> (\<exists>ord. x = Inr ord \<and> mset ord = mset [0..<length vals]))
           \<and> (length vals \<le> 2 * STKSIZE \<longrightarrow> x \<noteq> Inl StackSizeExceeded)"
proof (cases "length vals = 1")
  case True
  then have "qSort vals vlen ord0 numeric = Some (Inr [0])" using ne by (simp add: qSort_def)
  then show ?thesis using True by simp
next
  case False
  moreover have "length vals \<noteq> 0" using ne by simp
  ultimately have n: "2 \<le> length vals" by linarith
  let ?ord = "[0..<length vals]"
  have e: "qSort vals vlen ord0 numeric
      = qLoop numeric vals 0 (int (length vals) - 1) [] ?ord"
    using False ne by (simp add: qSort_def)
  have r: "\<forall>r \<in> set [(0, int (length vals) - 1)]. rangeOK (length ?ord) r"
    using n by (simp add: rangeOK_def)
  have s: "sizes [(0, int (length vals) - 1)] \<le> length ?ord"
    by (simp add: sizes_def rsize_def)
  from qLoop_returns [OF r s, of numeric vals] show ?thesis
    by (simp add: e)
qed

text \<open>
  Claim C9, as amended. \<open>qSort\<close> returns on every input, in both comparison modes.
  With no keys or a key width of 0 it returns without writing \<open>ord\<close>. Otherwise it
  stops with the error \<open>stack size exceeded\<close>, which needs more than \<open>2 * STKSIZE\<close>
  keys, or it leaves in \<open>ord\<close> a permutation of the indices \<open>0 .. nvals-1\<close>; no index
  outside \<open>ord\<close> is read. Nothing is promised on the order of indices with equal
  keys.
\<close>

theorem qSort_permutation:
  "(vals = [] \<or> vlen = 0 \<longrightarrow> qSort vals vlen ord0 numeric = Some (Inr ord0))
   \<and> (vals \<noteq> [] \<and> vlen \<noteq> 0 \<longrightarrow>
        qSort vals vlen ord0 numeric = Some (Inl StackSizeExceeded)
        \<or> (\<exists>ord. qSort vals vlen ord0 numeric = Some (Inr ord)
                  \<and> mset ord = mset [0..<length vals]))
   \<and> (vals \<noteq> [] \<and> vlen \<noteq> 0 \<and> length vals \<le> 2 * STKSIZE \<longrightarrow>
        (\<exists>ord. qSort vals vlen ord0 numeric = Some (Inr ord)
              \<and> mset ord = mset [0..<length vals]))"
proof (intro conjI impI)
  assume "vals = [] \<or> vlen = 0"
  then show "qSort vals vlen ord0 numeric = Some (Inr ord0)"
    by (auto simp: qSort_def)
next
  assume "vals \<noteq> [] \<and> vlen \<noteq> 0"
  then have "vals \<noteq> []" "vlen \<noteq> 0" by simp_all
  from qSort_returns [OF this, of ord0 numeric]
  show "qSort vals vlen ord0 numeric = Some (Inl StackSizeExceeded)
        \<or> (\<exists>ord. qSort vals vlen ord0 numeric = Some (Inr ord)
                  \<and> mset ord = mset [0..<length vals])"
    by auto
next
  assume a: "vals \<noteq> [] \<and> vlen \<noteq> 0 \<and> length vals \<le> 2 * STKSIZE"
  then have "vals \<noteq> []" "vlen \<noteq> 0" by simp_all
  from qSort_returns [OF this, of ord0 numeric] a
  show "\<exists>ord. qSort vals vlen ord0 numeric = Some (Inr ord)
              \<and> mset ord = mset [0..<length vals]"
    by auto
qed

lemmas q_eval = qSort_def qLoop.simps partLoop.simps partStep_def scanUp.simps scanDown.simps
  swapOrd_def keyLess_def atoi_def strtol_def toInt_def isspace_def isdigit_def half_def
  STKSIZE_def Let_def

text \<open>
  Claim C9 as stated fails: two equal keys come out in reverse order, in the
  lexicographic and in the numeric mode.
\<close>

theorem qSort_not_stable:
  "qSort [''a'', ''a''] 1 [0, 0] False = Some (Inr [1, 0])
   \<and> \<not> stableOrd False [''a'', ''a''] [1, 0]
   \<and> qSort [''1'', ''1''] 1 [0, 0] True = Some (Inr [1, 0])
   \<and> \<not> stableOrd True [''1'', ''1''] [1, 0]"
proof -
  have a: "qSort [''a'', ''a''] 1 [0, 0] False = Some (Inr [1, 0])"
    by (simp add: q_eval)
  have b: "qSort [''1'', ''1''] 1 [0, 0] True = Some (Inr [1, 0])"
    by (simp add: q_eval)
  have c: "\<not> stableOrd False [''a'', ''a''] [1, 0]"
  proof
    assume "stableOrd False [''a'', ''a''] [1, 0]"
    then have "[1, 0] ! 0 < [1, 0::nat] ! 1"
      unfolding stableOrd_def by (elim allE [of _ 0] impE allE [of _ 1]) (simp_all add: keyLess_def)
    then show False by simp
  qed
  have d: "\<not> stableOrd True [''1'', ''1''] [1, 0]"
  proof
    assume "stableOrd True [''1'', ''1''] [1, 0]"
    then have "[1, 0] ! 0 < [1, 0::nat] ! 1"
      unfolding stableOrd_def by (elim allE [of _ 0] impE allE [of _ 1]) (simp_all add: keyLess_def)
    then show False by simp
  qed
  from a b c d show ?thesis by blast
qed


theorem qSort_permutation_witness:
  "qSort [''b'', ''a''] 0 [5, 7] False = Some (Inr [5, 7])
   \<and> qSort [''b'', ''a'', ''a''] 1 [0, 0, 0] False = Some (Inr [2, 1, 0])
   \<and> mset [2, 1, 0] = mset [0..<length [''b'', ''a'', ''a'']]
   \<and> qSort [''10'', ''9'', ''4294967296''] 2 [0, 0, 0] True = Some (Inr [2, 1, 0])"
proof -
  have a: "qSort [''b'', ''a'', ''a''] 1 [0, 0, 0] False = Some (Inr [2, 1, 0])"
    by (simp add: q_eval)
  have b: "qSort [''10'', ''9'', ''4294967296''] 2 [0, 0, 0] True = Some (Inr [2, 1, 0])"
    by (simp add: q_eval)
  have c: "[''b'', ''a'', ''a''] \<noteq> [] \<and> (1::nat) \<noteq> 0 \<and> length [''b'', ''a'', ''a''] \<le> 2 * STKSIZE"
    by (simp add: STKSIZE_def)
  from qSort_permutation [of "[''b'', ''a'', ''a'']" 1 "[0, 0, 0]" False, THEN conjunct2, THEN conjunct2,
      rule_format, OF c] a
  have d: "mset [2, 1, 0] = mset [0..<length [''b'', ''a'', ''a'']]" by auto
  from qSort_permutation [of "[''b'', ''a'']" 0 "[5, 7]" False, THEN conjunct1]
  have e: "qSort [''b'', ''a''] 0 [5, 7] False = Some (Inr [5, 7])" by simp
  from a b d e show ?thesis by blast
qed

section \<open>ibdprep: the loop analyzer (checkLooping, makeLinks, findBreaks, addLink, rmLink)\<close>

text \<open>
  The link structure of one pedigree. \<open>linkList[f]\<close> is the chain of the \<open>Link\<close> structs
  of family \<open>f\<close>, in chain order, each a pair (\<open>ind\<close>, \<open>fam\<close>): the connecting individual
  and the family linked to. Families are addressed by their sequence number \<open>seq\<close> within
  the pedigree, individuals by theirs. \<open>nlink\<close> is only decremented where it is not
  zero, so it is a natural number; \<open>linkInd\<close> is decremented unguarded and is an int.
\<close>

record links =
  linkList :: "(nat \<times> nat) list list"
  nlink :: "nat list"
  linkInd :: "int list"

definition addLink :: "links \<Rightarrow> nat \<Rightarrow> nat \<Rightarrow> nat \<Rightarrow> links" where
  "addLink L fam1 fam2 ind =
     (let found = list_ex (\<lambda>r. fst r = ind) (linkList L ! fam1) in
      L\<lparr>linkList := (linkList L)[fam1 := linkList L ! fam1 @ [(ind, fam2)]],
        linkInd := (linkInd L)[ind := linkInd L ! ind + 1],
        nlink := (if found then nlink L else (nlink L)[fam1 := nlink L ! fam1 + 1])\<rparr>)"

text \<open>The chain without its first link to \<open>fam2\<close>.\<close>

fun unlink :: "nat \<Rightarrow> (nat \<times> nat) list \<Rightarrow> (nat \<times> nat) list" where
  "unlink fam2 [] = []"
| "unlink fam2 (r # rs) = (if snd r = fam2 then rs else r # unlink fam2 rs)"

definition rmLink :: "links \<Rightarrow> nat \<Rightarrow> nat \<Rightarrow> links" where
  "rmLink L fam1 fam2 =
     (if nlink L ! fam1 = 0 then L
      else
        (case find (\<lambda>r. snd r = fam2) (linkList L ! fam1) of
           None \<Rightarrow> L
         | Some r \<Rightarrow>
             (let ind = fst r;
                  rest = unlink fam2 (linkList L ! fam1);
                  L1 = L\<lparr>linkInd := (linkInd L)[ind := linkInd L ! ind - 1],
                         linkList := (linkList L)[fam1 := rest]\<rparr>
              in if list_ex (\<lambda>q. fst q = ind) rest then L1
                 else L1\<lparr>nlink := (nlink L)[fam1 := nlink L ! fam1 - 1],
                         linkList := (if nlink L ! fam1 - 1 = 0 then (linkList L1)[fam1 := []]
                                      else linkList L1)\<rparr>)))"

text \<open>
  Lines 1909 to 1941 of \<open>makeLinks\<close>. A family is linked in both directions to the
  family its father is a child of, to the family its mother is a child of, and to every
  earlier family of the chain that has the same father or the same mother.
\<close>

definition famSeq :: "pedstate \<Rightarrow> nat \<Rightarrow> nat" where
  "famSeq st f = fseq (FamArray st ! f)"

definition indSq :: "pedstate \<Rightarrow> nat \<Rightarrow> nat" where
  "indSq st p = seq (IndArray st ! p)"

definition addBoth :: "nat \<Rightarrow> nat \<Rightarrow> nat \<Rightarrow> links \<Rightarrow> links" where
  "addBoth f g x L = addLink (addLink L f g x) g f x"

definition linkParent :: "pedstate \<Rightarrow> nat \<Rightarrow> nat \<Rightarrow> links \<Rightarrow> links" where
  "linkParent st f p L =
     (case fam (IndArray st ! p) of
        None \<Rightarrow> L
      | Some g \<Rightarrow> addBoth (famSeq st f) (famSeq st g) (indSq st p) L)"

definition linkShared :: "pedstate \<Rightarrow> nat \<Rightarrow> nat \<Rightarrow> links \<Rightarrow> links" where
  "linkShared st f f2 L =
     (let L1 = (if fa (FamArray st ! f2) = fa (FamArray st ! f)
                then addBoth (famSeq st f) (famSeq st f2) (indSq st (fa (FamArray st ! f2))) L
                else L)
      in if mo (FamArray st ! f2) = mo (FamArray st ! f)
         then addBoth (famSeq st f) (famSeq st f2) (indSq st (mo (FamArray st ! f2))) L1
         else L1)"

definition linkFam :: "pedstate \<Rightarrow> nat list \<Rightarrow> nat \<Rightarrow> links \<Rightarrow> links" where
  "linkFam st prev f L =
     fold (linkShared st f) prev
       (linkParent st f (mo (FamArray st ! f)) (linkParent st f (fa (FamArray st ! f)) L))"

fun linkFams :: "pedstate \<Rightarrow> nat list \<Rightarrow> nat list \<Rightarrow> links \<Rightarrow> links" where
  "linkFams st prev [] L = L"
| "linkFams st prev (f # fs) L = linkFams st (prev @ [f]) fs (linkFam st prev f L)"

text \<open>
  Lines 1943 to 1968: the pruning. \<open>NumFam\<close> is the length of \<open>nlink\<close>. A family with
  one link is unlinked from every other family; its own chain is freed, each link
  giving back its count in \<open>linkInd\<close>.
\<close>

definition freeChain :: "links \<Rightarrow> nat \<Rightarrow> links" where
  "freeChain L i =
     L\<lparr>linkInd := fold (\<lambda>r li. li[fst r := li ! fst r - 1]) (linkList L ! i) (linkInd L),
       nlink := (nlink L)[i := 0],
       linkList := (linkList L)[i := []]\<rparr>"

definition pruneFam :: "links \<Rightarrow> nat \<Rightarrow> links" where
  "pruneFam L i = freeChain (fold (\<lambda>j L. rmLink L j i) [0..<length (nlink L)] L) i"

definition pruneStep :: "nat \<Rightarrow> links \<times> bool \<Rightarrow> links \<times> bool" where
  "pruneStep i Ld = (if nlink (fst Ld) ! i = 1 then (pruneFam (fst Ld) i, False) else Ld)"

definition prunePass :: "links \<Rightarrow> links \<times> bool" where
  "prunePass L = fold pruneStep [0..<length (nlink L)] (L, True)"

lemma nth_update_le: "v \<le> xs ! j \<Longrightarrow> xs[j := v] ! k \<le> (xs ! k :: nat)"
  by (cases "j < length xs"; cases "k = j") (simp_all add: list_update_beyond)

lemma rmLink_nlink:
  "length (nlink (rmLink L j i)) = length (nlink L)
   \<and> (\<forall>k < length (nlink L). nlink (rmLink L j i) ! k \<le> nlink L ! k)"
proof -
  have "nlink (rmLink L j i) = nlink L \<or> nlink (rmLink L j i) = (nlink L)[j := nlink L ! j - 1]"
    by (simp add: rmLink_def Let_def split: option.splits)
  then show ?thesis
  proof
    assume "nlink (rmLink L j i) = nlink L"
    then show ?thesis by simp
  next
    assume e: "nlink (rmLink L j i) = (nlink L)[j := nlink L ! j - 1]"
    have "\<And>k. (nlink L)[j := nlink L ! j - 1] ! k \<le> nlink L ! k"
      by (rule nth_update_le) simp
    then show ?thesis by (simp add: e)
  qed
qed

lemma rmFold_nlink:
  "length (nlink (fold (\<lambda>j L. rmLink L j i) js L)) = length (nlink L)
   \<and> (\<forall>k < length (nlink L). nlink (fold (\<lambda>j L. rmLink L j i) js L) ! k \<le> nlink L ! k)"
proof (induction js arbitrary: L)
  case Nil
  show ?case by simp
next
  case (Cons j js)
  let ?L1 = "rmLink L j i"
  note a = Cons.IH [of ?L1] and b = rmLink_nlink [of L j i]
  have "\<forall>k < length (nlink L). nlink (fold (\<lambda>j L. rmLink L j i) js ?L1) ! k \<le> nlink L ! k"
  proof (intro allI impI)
    fix k assume k: "k < length (nlink L)"
    have "nlink (fold (\<lambda>j L. rmLink L j i) js ?L1) ! k \<le> nlink ?L1 ! k"
      using a b k by simp
    also have "\<dots> \<le> nlink L ! k" using b k by simp
    finally show "nlink (fold (\<lambda>j L. rmLink L j i) js ?L1) ! k \<le> nlink L ! k" .
  qed
  then show ?case using a b by simp
qed

lemma pruneFam_nlink:
  "length (nlink (pruneFam L i)) = length (nlink L)
   \<and> (\<forall>k < length (nlink L). nlink (pruneFam L i) ! k \<le> nlink L ! k)
   \<and> (i < length (nlink L) \<longrightarrow> nlink (pruneFam L i) ! i = 0)"
proof -
  let ?M = "fold (\<lambda>j L. rmLink L j i) [0..<length (nlink L)] L"
  note r = rmFold_nlink [of i "[0..<length (nlink L)]" L]
  have n: "nlink (pruneFam L i) = (nlink ?M)[i := 0]"
    by (simp add: pruneFam_def freeChain_def)
  have "\<forall>k < length (nlink L). (nlink ?M)[i := 0] ! k \<le> nlink L ! k"
  proof (intro allI impI)
    fix k assume k: "k < length (nlink L)"
    have "(nlink ?M)[i := 0] ! k \<le> nlink ?M ! k" by (rule nth_update_le) simp
    also have "\<dots> \<le> nlink L ! k" using r k by simp
    finally show "(nlink ?M)[i := 0] ! k \<le> nlink L ! k" .
  qed
  then show ?thesis using r by (simp add: n)
qed

lemma sum_list_pointwise:
  "length xs = length ys \<Longrightarrow> \<forall>k < length xs. xs ! k \<le> (ys ! k :: nat) \<Longrightarrow> sum_list xs \<le> sum_list ys"
proof (induction xs ys rule: list_induct2)
  case Nil
  show ?case by simp
next
  case (Cons x xs y ys)
  have "\<forall>k < length xs. xs ! k \<le> ys ! k"
    using Cons.prems by auto
  moreover have "x \<le> y" using Cons.prems by auto
  ultimately show ?case using Cons.IH by simp
qed

lemma sum_list_strict:
  "length xs = length ys \<Longrightarrow> \<forall>k < length xs. xs ! k \<le> (ys ! k :: nat) \<Longrightarrow>
   i < length xs \<Longrightarrow> xs ! i < ys ! i \<Longrightarrow> sum_list xs < sum_list ys"
proof (induction xs ys arbitrary: i rule: list_induct2)
  case Nil
  then show ?case by simp
next
  case (Cons x xs y ys)
  have le: "\<forall>k < length xs. xs ! k \<le> ys ! k" "x \<le> y"
    using Cons.prems(1) by auto
  show ?case
  proof (cases i)
    case 0
    then have "x < y" using Cons.prems(3) by simp
    moreover have "sum_list xs \<le> sum_list ys"
      using sum_list_pointwise [OF Cons.hyps le(1)] .
    ultimately show ?thesis by simp
  next
    case (Suc i')
    then have "i' < length xs" "xs ! i' < ys ! i'"
      using Cons.prems(2,3) by simp_all
    from Cons.IH [OF le(1) this] le(2) show ?thesis by simp
  qed
qed

lemma pruneStep_nlink:
  assumes "i < length (nlink (fst Ld))"
  shows "length (nlink (fst (pruneStep i Ld))) = length (nlink (fst Ld))
   \<and> (\<forall>k < length (nlink (fst Ld)). nlink (fst (pruneStep i Ld)) ! k \<le> nlink (fst Ld) ! k)
   \<and> (snd (pruneStep i Ld) \<longrightarrow> snd Ld)
   \<and> (snd Ld \<and> \<not> snd (pruneStep i Ld) \<longrightarrow>
        sum_list (nlink (fst (pruneStep i Ld))) < sum_list (nlink (fst Ld)))"
proof (cases "nlink (fst Ld) ! i = 1")
  case False
  then show ?thesis by (simp add: pruneStep_def)
next
  case True
  note p = pruneFam_nlink [of "fst Ld" i]
  have "sum_list (nlink (pruneFam (fst Ld) i)) < sum_list (nlink (fst Ld))"
    using p True assms by (intro sum_list_strict [where i = i]) auto
  with p True show ?thesis by (simp add: pruneStep_def)
qed

lemma pruneFold_nlink:
  "\<forall>i \<in> set is. i < length (nlink (fst Ld)) \<Longrightarrow>
   length (nlink (fst (fold pruneStep is Ld))) = length (nlink (fst Ld))
   \<and> sum_list (nlink (fst (fold pruneStep is Ld))) \<le> sum_list (nlink (fst Ld))
   \<and> (snd (fold pruneStep is Ld) \<longrightarrow> snd Ld)
   \<and> (snd Ld \<and> \<not> snd (fold pruneStep is Ld) \<longrightarrow>
        sum_list (nlink (fst (fold pruneStep is Ld))) < sum_list (nlink (fst Ld)))"
proof (induction "is" arbitrary: Ld)
  case Nil
  show ?case by simp
next
  case (Cons i "is")
  have i: "i < length (nlink (fst Ld))" using Cons.prems by simp
  note s = pruneStep_nlink [OF i]
  have le: "sum_list (nlink (fst (pruneStep i Ld))) \<le> sum_list (nlink (fst Ld))"
    using s by (intro sum_list_pointwise) auto
  have "\<forall>k \<in> set is. k < length (nlink (fst (pruneStep i Ld)))"
    using Cons.prems s by simp
  note ih = Cons.IH [OF this]
  let ?A = "fold pruneStep is (pruneStep i Ld)"
  have 1: "length (nlink (fst ?A)) = length (nlink (fst Ld))" using ih s by simp
  have 2: "sum_list (nlink (fst ?A)) \<le> sum_list (nlink (fst Ld))"
    using ih le by linarith
  have 3: "snd ?A \<longrightarrow> snd Ld" using ih s by blast
  have 4: "snd Ld \<and> \<not> snd ?A \<longrightarrow> sum_list (nlink (fst ?A)) < sum_list (nlink (fst Ld))"
  proof
    assume h: "snd Ld \<and> \<not> snd ?A"
    show "sum_list (nlink (fst ?A)) < sum_list (nlink (fst Ld))"
    proof (cases "snd (pruneStep i Ld)")
      case True
      with ih h have "sum_list (nlink (fst ?A)) < sum_list (nlink (fst (pruneStep i Ld)))" by blast
      with le show ?thesis by linarith
    next
      case False
      with s h have "sum_list (nlink (fst (pruneStep i Ld))) < sum_list (nlink (fst Ld))" by blast
      with ih show ?thesis by linarith
    qed
  qed
  from 1 2 3 4 show ?case by simp
qed

lemma prunePass_nlink:
  "length (nlink (fst (prunePass L))) = length (nlink L)"
  "\<not> snd (prunePass L) \<Longrightarrow> sum_list (nlink (fst (prunePass L))) < sum_list (nlink L)"
  using pruneFold_nlink [of "[0..<length (nlink L)]" "(L, True)"]
  by (simp_all add: prunePass_def)

function pruneLoop :: "links \<Rightarrow> links" where
  "pruneLoop L = (let Ld = prunePass L in if snd Ld then fst Ld else pruneLoop (fst Ld))"
  by pat_completeness auto
termination
proof (relation "measure (\<lambda>L. sum_list (nlink L))")
  show "wf (measure (\<lambda>L. sum_list (nlink L)))" by simp
next
  fix L Ld assume "Ld = prunePass L" "\<not> snd Ld"
  then show "(fst Ld, L) \<in> measure (\<lambda>L. sum_list (nlink L))"
    using prunePass_nlink(2) [of L] by simp
qed

declare pruneLoop.simps [simp del]

definition links0 :: "nat \<Rightarrow> nat \<Rightarrow> links" where
  "links0 numFam numInd =
     \<lparr>linkList = replicate numFam [], nlink = replicate numFam 0, linkInd = replicate numInd 0\<rparr>"

definition makeLinks :: "pedstate \<Rightarrow> nat \<Rightarrow> links" where
  "makeLinks st pd =
     pruneLoop (linkFams st [] (fams (PedArray st ! pd)) (links0 (length (FamArray st)) (NInd st)))"

text \<open>
  \<open>findBreaks\<close>: \<open>nlbrk\<close> is assigned only when \<open>narcs >= nodes\<close> and read in any case;
  the model returns \<open>None\<close> when it would be read unassigned. The candidate id that
  \<open>findBreaks\<close> also computes is not used by its caller.
\<close>

definition narcs :: "links \<Rightarrow> nat" where
  "narcs L = sum_list (filter (\<lambda>n. n \<noteq> 0) (nlink L))"

definition nodes :: "links \<Rightarrow> nat" where
  "nodes L = length (filter (\<lambda>n. n \<noteq> 0) (nlink L)) + length (filter (\<lambda>n. n \<noteq> 0) (linkInd L))"

definition findBreaks :: "links \<Rightarrow> int option" where
  "findBreaks L = (if nodes L \<le> narcs L then Some (int (narcs L) - int (nodes L) + 1) else None)"

text \<open>
  \<open>checkLooping\<close> for one pedigree: the arcs of the pedigree graph against its nodes,
  then the analysis of the links. \<open>None\<close> stands for the read of the unassigned
  \<open>nlbrk\<close>.
\<close>

definition pedArcs :: "pedstate \<Rightarrow> nat \<Rightarrow> nat" where
  "pedArcs st pd = sum_list (map (\<lambda>f. nkid (FamArray st ! f) + 2) (fams (PedArray st ! pd)))"

definition checkLooping :: "pedstate \<Rightarrow> nat \<Rightarrow> Ped option" where
  "checkLooping st pd =
     (let pedp = PedArray st ! pd in
      if pedArcs st pd < nind pedp + nfam pedp then Some (pedp\<lparr>hasloops := False, nlbrk := 0\<rparr>)
      else
        (case findBreaks (makeLinks st pd) of
           None \<Rightarrow> None
         | Some n \<Rightarrow> Some (pedp\<lparr>hasloops := True, nlbrk := n\<rparr>)))"

subsection \<open>The counters agree with the chains\<close>

text \<open>The number of links through individual \<open>x\<close>, over all chains.\<close>

definition through :: "nat \<Rightarrow> (nat \<times> nat) list \<Rightarrow> nat" where
  "through x rs = length (filter (\<lambda>r. fst r = x) rs)"

definition occurs :: "links \<Rightarrow> nat \<Rightarrow> nat" where
  "occurs L x = sum_list (map (through x) (linkList L))"

text \<open>
  The invariant of the link structure: \<open>nlink[f]\<close> is the number of distinct connecting
  individuals in the chain of \<open>f\<close>, and \<open>linkInd[x]\<close> is the number of links through
  \<open>x\<close>.
\<close>

definition linkInv :: "nat \<Rightarrow> nat \<Rightarrow> links \<Rightarrow> bool" where
  "linkInv NF NI L \<longleftrightarrow>
     length (linkList L) = NF \<and> length (nlink L) = NF \<and> length (linkInd L) = NI
     \<and> (\<forall>f < NF. nlink L ! f = card (fst ` set (linkList L ! f)))
     \<and> (\<forall>f < NF. \<forall>r \<in> set (linkList L ! f). fst r < NI)
     \<and> (\<forall>x < NI. linkInd L ! x = int (occurs L x))"

lemma list_ex_fst: "list_ex (\<lambda>r. fst r = x) rs \<longleftrightarrow> x \<in> fst ` set rs"
  by (auto simp: list_ex_iff)

lemma sum_list_map_update:
  "k < length xs \<Longrightarrow> sum_list (map h (xs[k := v])) + h (xs ! k) = sum_list (map h xs) + (h v :: nat)"
proof (induction xs arbitrary: k)
  case Nil
  then show ?case by simp
next
  case (Cons a xs)
  show ?case
  proof (cases k)
    case 0
    then show ?thesis by simp
  next
    case (Suc k')
    with Cons.prems have "k' < length xs" by simp
    from Cons.IH [OF this] Suc show ?thesis by simp
  qed
qed

lemma occurs_update:
  "f < length (linkList L) \<Longrightarrow>
   occurs (L\<lparr>linkList := (linkList L)[f := rs]\<rparr>) x + through x (linkList L ! f)
     = occurs L x + through x rs"
  using sum_list_map_update [of f "linkList L" "through x" rs] by (simp add: occurs_def)

lemma linkList_more_update [simp]:
  "occurs (L\<lparr>nlink := n\<rparr>) x = occurs L x" "occurs (L\<lparr>linkInd := li\<rparr>) x = occurs L x"
  by (simp_all add: occurs_def)

lemma addLink_inv:
  assumes inv: "linkInv NF NI L" and f: "f < NF" and x: "x < NI"
  shows "linkInv NF NI (addLink L f g x)"
proof -
  let ?rs = "linkList L ! f"
  let ?L' = "addLink L f g x"
  have len: "length (linkList L) = NF" "length (nlink L) = NF" "length (linkInd L) = NI"
    using inv by (simp_all add: linkInv_def)
  have ll: "linkList ?L' = (linkList L)[f := ?rs @ [(x, g)]]"
    by (simp add: addLink_def Let_def)
  have li: "linkInd ?L' = (linkInd L)[x := linkInd L ! x + 1]"
    by (simp add: addLink_def Let_def)
  have nl: "nlink ?L' = (if x \<in> fst ` set ?rs then nlink L else (nlink L)[f := nlink L ! f + 1])"
    by (simp add: addLink_def Let_def list_ex_fst)
  have a: "\<forall>k < NF. nlink ?L' ! k = card (fst ` set (linkList ?L' ! k))"
  proof (intro allI impI)
    fix k assume k: "k < NF"
    have old: "nlink L ! k = card (fst ` set (linkList L ! k))"
      using inv k by (simp add: linkInv_def)
    show "nlink ?L' ! k = card (fst ` set (linkList ?L' ! k))"
    proof (cases "k = f")
      case False
      then show ?thesis using old by (simp add: ll nl)
    next
      case True
      have "card (fst ` set (?rs @ [(x, g)])) = (if x \<in> fst ` set ?rs then card (fst ` set ?rs)
          else card (fst ` set ?rs) + 1)"
        by (simp add: card_insert_if)
      then show ?thesis using old True f len by (simp add: ll nl)
    qed
  qed
  have b: "\<forall>k < NF. \<forall>r \<in> set (linkList ?L' ! k). fst r < NI"
  proof (intro allI impI ballI)
    fix k r assume k: "k < NF" and r: "r \<in> set (linkList ?L' ! k)"
    have old: "\<forall>r \<in> set (linkList L ! k). fst r < NI"
      using inv k by (simp add: linkInv_def)
    show "fst r < NI"
      using r old x len k by (cases "k = f") (auto simp: ll)
  qed
  have c: "\<forall>y < NI. linkInd ?L' ! y = int (occurs ?L' y)"
  proof (intro allI impI)
    fix y assume y: "y < NI"
    have old: "linkInd L ! y = int (occurs L y)"
      using inv y by (simp add: linkInv_def)
    have o: "occurs ?L' y = occurs (L\<lparr>linkList := (linkList L)[f := ?rs @ [(x, g)]]\<rparr>) y"
      by (simp add: addLink_def Let_def occurs_def)
    have "occurs ?L' y + through y ?rs = occurs L y + through y (?rs @ [(x, g)])"
      unfolding o using f len by (intro occurs_update) simp
    then have "occurs ?L' y = occurs L y + (if y = x then 1 else 0)"
      by (simp add: through_def)
    then show "linkInd ?L' ! y = int (occurs ?L' y)"
      using old y len x by (simp add: li nth_list_update)
  qed
  show ?thesis
    unfolding linkInv_def using a b c len by (simp add: ll li) (simp add: nl)
qed


lemma unlink_remove1:
  "find (\<lambda>r. snd r = i) rs = Some r \<Longrightarrow> unlink i rs = remove1 r rs \<and> r \<in> set rs \<and> snd r = i"
proof (induction rs)
  case Nil
  then show ?case by simp
next
  case (Cons a rs)
  then show ?case by (cases "snd a = i") auto
qed

lemma unlink_none: "find (\<lambda>r. snd r = i) rs = None \<Longrightarrow> unlink i rs = rs"
  by (induction rs) (auto split: if_splits)

lemma through_remove1:
  "r \<in> set rs \<Longrightarrow> through x (remove1 r rs) + (if fst r = x then 1 else 0) = through x rs"
proof (induction rs)
  case Nil
  then show ?case by simp
next
  case (Cons a rs)
  then show ?case by (cases "a = r") (auto simp: through_def)
qed

lemma set_remove1_insert: "r \<in> set rs \<Longrightarrow> insert r (set (remove1 r rs)) = set rs"
  by (induction rs) auto

lemma fst_set_remove1:
  assumes "r \<in> set rs"
  shows "fst ` set rs = insert (fst r) (fst ` set (remove1 r rs))"
proof -
  have "fst ` set rs = fst ` insert r (set (remove1 r rs))"
    using set_remove1_insert [OF assms] by simp
  then show ?thesis by simp
qed

lemma rmLink_inv:
  assumes inv: "linkInv NF NI L" and j: "j < NF"
  shows "linkInv NF NI (rmLink L j i)"
proof -
  let ?rs = "linkList L ! j"
  have len: "length (linkList L) = NF" "length (nlink L) = NF" "length (linkInd L) = NI"
    using inv by (simp_all add: linkInv_def)
  show ?thesis
  proof (cases "nlink L ! j = 0 \<or> find (\<lambda>r. snd r = i) ?rs = None")
    case True
    then have "rmLink L j i = L" by (auto simp: rmLink_def)
    with inv show ?thesis by simp
  next
    case False
    then obtain r where r: "find (\<lambda>r. snd r = i) ?rs = Some r" and nz: "nlink L ! j \<noteq> 0"
      by auto
    define x where "x = fst r"
    define rest where "rest = unlink i ?rs"
    have rest: "rest = remove1 r ?rs" "r \<in> set ?rs"
      using unlink_remove1 [OF r] by (simp_all add: rest_def)
    have xr: "x < NI" using inv j rest(2) by (auto simp: linkInv_def x_def)
    have cardj: "nlink L ! j = card (fst ` set ?rs)"
      using inv j by (simp add: linkInv_def)
    have fs: "fst ` set ?rs = insert x (fst ` set rest)"
      using fst_set_remove1 [OF rest(2)] by (simp add: rest(1) x_def)
    let ?L' = "rmLink L j i"
    have li: "linkInd ?L' = (linkInd L)[x := linkInd L ! x - 1]"
      using r nz by (simp add: rmLink_def Let_def x_def)
    have nl: "nlink ?L' = (if x \<in> fst ` set rest then nlink L else (nlink L)[j := nlink L ! j - 1])"
      using r nz by (simp add: rmLink_def Let_def x_def rest_def list_ex_fst)
    have empty: "x \<notin> fst ` set rest \<Longrightarrow> nlink L ! j - 1 = 0 \<Longrightarrow> rest = []"
    proof -
      assume a: "x \<notin> fst ` set rest" "nlink L ! j - 1 = 0"
      have "card (fst ` set ?rs) = card (fst ` set rest) + 1"
        using a(1) by (simp add: fs)
      with a(2) cardj have "card (fst ` set rest) = 0" by simp
      then show "rest = []" by simp
    qed
    have ll: "linkList ?L' = (linkList L)[j := rest]"
    proof (cases "x \<in> fst ` set rest")
      case True
      then show ?thesis using r nz by (simp add: rmLink_def Let_def x_def rest_def list_ex_fst)
    next
      case False
      then have "linkList ?L' = (if nlink L ! j - 1 = 0 then (linkList L)[j := rest, j := []]
          else (linkList L)[j := rest])"
        using r nz by (simp add: rmLink_def Let_def x_def rest_def list_ex_fst)
      then show ?thesis using empty [OF False] by (simp split: if_splits)
    qed
    have a: "\<forall>k < NF. nlink ?L' ! k = card (fst ` set (linkList ?L' ! k))"
    proof (intro allI impI)
      fix k assume k: "k < NF"
      have old: "nlink L ! k = card (fst ` set (linkList L ! k))"
        using inv k by (simp add: linkInv_def)
      show "nlink ?L' ! k = card (fst ` set (linkList ?L' ! k))"
      proof (cases "k = j")
        case False
        then show ?thesis using old by (simp add: ll nl)
      next
        case True
        show ?thesis
        proof (cases "x \<in> fst ` set rest")
          case True
          then have "fst ` set ?rs = fst ` set rest" using fs by auto
          then show ?thesis using \<open>k = j\<close> True cardj j len by (simp add: ll nl)
        next
          case False
          then have "card (fst ` set ?rs) = card (fst ` set rest) + 1" by (simp add: fs)
          then show ?thesis using \<open>k = j\<close> False cardj j len by (simp add: ll nl)
        qed
      qed
    qed
    have b: "\<forall>k < NF. \<forall>q \<in> set (linkList ?L' ! k). fst q < NI"
    proof (intro allI impI ballI)
      fix k q assume k: "k < NF" and q: "q \<in> set (linkList ?L' ! k)"
      have old: "\<forall>q \<in> set (linkList L ! k). fst q < NI"
        using inv k by (simp add: linkInv_def)
      have "set rest \<subseteq> set ?rs" by (simp add: rest(1) set_remove1_subset)
      then show "fst q < NI"
        using q old len k by (cases "k = j") (auto simp: ll)
    qed
    have c: "\<forall>y < NI. linkInd ?L' ! y = int (occurs ?L' y)"
    proof (intro allI impI)
      fix y assume y: "y < NI"
      have old: "linkInd L ! y = int (occurs L y)"
        using inv y by (simp add: linkInv_def)
      have o: "occurs ?L' y = occurs (L\<lparr>linkList := (linkList L)[j := rest]\<rparr>) y"
        by (simp add: occurs_def ll)
      have "occurs ?L' y + through y ?rs = occurs L y + through y rest"
        unfolding o using j len by (intro occurs_update) simp
      moreover have "through y rest + (if x = y then 1 else 0) = through y ?rs"
        using through_remove1 [OF rest(2), of y] by (simp add: rest(1) x_def)
      ultimately have "occurs ?L' y + (if x = y then 1 else 0) = occurs L y"
        by simp
      then show "linkInd ?L' ! y = int (occurs ?L' y)"
        using old y len xr by (auto simp: li nth_list_update split: if_splits)
    qed
    show ?thesis
      unfolding linkInv_def using a b c len by (simp add: ll li) (simp add: nl)
  qed
qed


lemma giveBack_fold:
  "\<forall>r \<in> set rs. fst r < length li \<Longrightarrow>
   length (fold (\<lambda>r li. li[fst r := li ! fst r - 1]) rs li) = length li
   \<and> (\<forall>y < length li. fold (\<lambda>r li. li[fst r := li ! fst r - 1]) rs li ! y
          = li ! y - int (through y rs))"
proof (induction rs arbitrary: li)
  case Nil
  show ?case by (simp add: through_def)
next
  case (Cons r rs)
  let ?li = "li[fst r := li ! fst r - 1]"
  have "\<forall>q \<in> set rs. fst q < length ?li" using Cons.prems by simp
  from Cons.IH [OF this] Cons.prems show ?case
    by (auto simp: through_def nth_list_update)
qed

lemma freeChain_inv:
  assumes inv: "linkInv NF NI L" and i: "i < NF"
  shows "linkInv NF NI (freeChain L i)"
proof -
  let ?rs = "linkList L ! i"
  let ?L' = "freeChain L i"
  have len: "length (linkList L) = NF" "length (nlink L) = NF" "length (linkInd L) = NI"
    using inv by (simp_all add: linkInv_def)
  have rng: "\<forall>r \<in> set ?rs. fst r < length (linkInd L)"
    using inv i by (simp add: linkInv_def)
  note g = giveBack_fold [OF rng]
  have ll: "linkList ?L' = (linkList L)[i := []]" and nl: "nlink ?L' = (nlink L)[i := 0]"
    and li: "linkInd ?L' = fold (\<lambda>r li. li[fst r := li ! fst r - 1]) ?rs (linkInd L)"
    by (simp_all add: freeChain_def)
  have a: "\<forall>k < NF. nlink ?L' ! k = card (fst ` set (linkList ?L' ! k))"
  proof (intro allI impI)
    fix k assume k: "k < NF"
    have "nlink L ! k = card (fst ` set (linkList L ! k))"
      using inv k by (simp add: linkInv_def)
    then show "nlink ?L' ! k = card (fst ` set (linkList ?L' ! k))"
      using len k i by (cases "k = i") (simp_all add: ll nl)
  qed
  have b: "\<forall>k < NF. \<forall>q \<in> set (linkList ?L' ! k). fst q < NI"
  proof (intro allI impI)
    fix k assume k: "k < NF"
    have "\<forall>q \<in> set (linkList L ! k). fst q < NI"
      using inv k by (simp add: linkInv_def)
    then show "\<forall>q \<in> set (linkList ?L' ! k). fst q < NI"
      using len k i by (cases "k = i") (simp_all add: ll)
  qed
  have c: "\<forall>y < NI. linkInd ?L' ! y = int (occurs ?L' y)"
  proof (intro allI impI)
    fix y assume y: "y < NI"
    have old: "linkInd L ! y = int (occurs L y)"
      using inv y by (simp add: linkInv_def)
    have o: "occurs ?L' y = occurs (L\<lparr>linkList := (linkList L)[i := []]\<rparr>) y"
      by (simp add: occurs_def ll)
    have "occurs ?L' y + through y ?rs = occurs L y + through y []"
      unfolding o using i len by (intro occurs_update) simp
    then have "occurs ?L' y + through y ?rs = occurs L y"
      by (simp add: through_def)
    then show "linkInd ?L' ! y = int (occurs ?L' y)"
      using old g y len by (simp add: li)
  qed
  show ?thesis
    unfolding linkInv_def using a b c len g by (simp add: ll li nl)
qed

lemma rmFold_inv:
  "linkInv NF NI L \<Longrightarrow> \<forall>j \<in> set js. j < NF \<Longrightarrow> linkInv NF NI (fold (\<lambda>j L. rmLink L j i) js L)"
  by (induction js arbitrary: L) (simp_all add: rmLink_inv)

lemma pruneFam_inv:
  assumes "linkInv NF NI L" "i < NF"
  shows "linkInv NF NI (pruneFam L i)"
proof -
  have "length (nlink L) = NF" using assms(1) by (simp add: linkInv_def)
  then have "linkInv NF NI (fold (\<lambda>j L. rmLink L j i) [0..<length (nlink L)] L)"
    using assms(1) by (intro rmFold_inv) simp_all
  then show ?thesis unfolding pruneFam_def using assms(2) by (rule freeChain_inv)
qed

lemma pruneStep_inv:
  "linkInv NF NI (fst Ld) \<Longrightarrow> i < NF \<Longrightarrow> linkInv NF NI (fst (pruneStep i Ld))"
  by (simp add: pruneStep_def pruneFam_inv)

lemma pruneFold_inv:
  "linkInv NF NI (fst Ld) \<Longrightarrow> \<forall>i \<in> set is. i < NF \<Longrightarrow> linkInv NF NI (fst (fold pruneStep is Ld))"
  by (induction "is" arbitrary: Ld) (simp_all add: pruneStep_inv)

lemma prunePass_inv: "linkInv NF NI L \<Longrightarrow> linkInv NF NI (fst (prunePass L))"
  unfolding prunePass_def by (rule pruneFold_inv) (simp_all add: linkInv_def)

lemma pruneLoop_inv: "linkInv NF NI L \<Longrightarrow> linkInv NF NI (pruneLoop L)"
proof (induction L rule: pruneLoop.induct)
  case (1 L)
  show ?case
  proof (cases "snd (prunePass L)")
    case True
    then show ?thesis
      using prunePass_inv [OF "1.prems"] by (simp add: pruneLoop.simps [of L] Let_def)
  next
    case False
    from "1.IH" [OF refl False prunePass_inv [OF "1.prems"]] False show ?thesis
      by (simp add: pruneLoop.simps [of L] Let_def)
  qed
qed

text \<open>Every sequence number that \<open>makeLinks\<close> uses as an index is in range.\<close>

definition linkRange :: "pedstate \<Rightarrow> nat list \<Rightarrow> bool" where
  "linkRange st fs \<longleftrightarrow>
     (\<forall>f \<in> set fs. famSeq st f < length (FamArray st)
        \<and> (\<forall>p \<in> {fa (FamArray st ! f), mo (FamArray st ! f)}.
              indSq st p < NInd st
              \<and> (\<forall>g. fam (IndArray st ! p) = Some g \<longrightarrow> famSeq st g < length (FamArray st))))"

lemma addBoth_inv:
  "linkInv NF NI L \<Longrightarrow> f < NF \<Longrightarrow> g < NF \<Longrightarrow> x < NI \<Longrightarrow> linkInv NF NI (addBoth f g x L)"
  by (simp add: addBoth_def addLink_inv)

lemma linkParent_inv:
  assumes "linkInv (length (FamArray st)) (NInd st) L" "linkRange st fs" "f \<in> set fs"
    "p = fa (FamArray st ! f) \<or> p = mo (FamArray st ! f)"
  shows "linkInv (length (FamArray st)) (NInd st) (linkParent st f p L)"
  using assms by (auto simp: linkParent_def linkRange_def intro!: addBoth_inv split: option.splits)

lemma linkShared_inv:
  assumes "linkInv (length (FamArray st)) (NInd st) L" "linkRange st fs" "f \<in> set fs" "f2 \<in> set fs"
  shows "linkInv (length (FamArray st)) (NInd st) (linkShared st f f2 L)"
  using assms by (auto simp: linkShared_def Let_def linkRange_def intro!: addBoth_inv)

lemma linkSharedFold_inv:
  "linkInv (length (FamArray st)) (NInd st) L \<Longrightarrow> linkRange st fs \<Longrightarrow> f \<in> set fs \<Longrightarrow>
   set prev \<subseteq> set fs \<Longrightarrow> linkInv (length (FamArray st)) (NInd st) (fold (linkShared st f) prev L)"
proof (induction prev arbitrary: L)
  case Nil
  then show ?case by simp
next
  case (Cons f2 prev)
  have "linkInv (length (FamArray st)) (NInd st) (linkShared st f f2 L)"
    using Cons.prems by (intro linkShared_inv [where fs = fs]) auto
  from Cons.IH [OF this] Cons.prems show ?case by simp
qed

lemma linkFam_inv:
  assumes "linkInv (length (FamArray st)) (NInd st) L" "linkRange st fs" "f \<in> set fs"
    "set prev \<subseteq> set fs"
  shows "linkInv (length (FamArray st)) (NInd st) (linkFam st prev f L)"
  unfolding linkFam_def
  by (intro linkSharedFold_inv [where fs = fs] linkParent_inv [where fs = fs] assms) simp_all

lemma linkFams_inv:
  "linkInv (length (FamArray st)) (NInd st) L \<Longrightarrow> linkRange st fs \<Longrightarrow> set todo \<subseteq> set fs \<Longrightarrow>
   set prev \<subseteq> set fs \<Longrightarrow> linkInv (length (FamArray st)) (NInd st) (linkFams st prev todo L)"
proof (induction todo arbitrary: prev L)
  case Nil
  then show ?case by simp
next
  case (Cons f todo)
  have "linkInv (length (FamArray st)) (NInd st) (linkFam st prev f L)"
    using Cons.prems by (intro linkFam_inv [where fs = fs]) auto
  from Cons.IH [OF this] Cons.prems show ?case by simp
qed

lemma links0_inv: "linkInv NF NI (links0 NF NI)"
  by (simp add: linkInv_def links0_def occurs_def through_def)

lemma makeLinks_inv:
  assumes "linkRange st (fams (PedArray st ! pd))"
  shows "linkInv (length (FamArray st)) (NInd st) (makeLinks st pd)"
  unfolding makeLinks_def
  by (intro pruneLoop_inv linkFams_inv [where fs = "fams (PedArray st ! pd)"] links0_inv assms) simp_all


lemma sum_list_nonzero: "sum_list (filter (\<lambda>n. n \<noteq> 0) ns) = sum_list (ns :: nat list)"
  by (induction ns) simp_all

lemma narcs_sum:
  assumes "linkInv NF NI L"
  shows "narcs L = (\<Sum>f < NF. card (fst ` set (linkList L ! f)))"
proof -
  have "narcs L = sum_list (nlink L)"
    unfolding narcs_def by (rule sum_list_nonzero)
  also have "\<dots> = (\<Sum>f = 0..<length (nlink L). nlink L ! f)"
    by (rule sum_list_sum_nth)
  also have "\<dots> = (\<Sum>f < NF. nlink L ! f)"
    using assms by (simp add: linkInv_def atLeast0LessThan)
  also have "\<dots> = (\<Sum>f < NF. card (fst ` set (linkList L ! f)))"
    using assms by (intro sum.cong) (simp_all add: linkInv_def)
  finally show ?thesis .
qed

text \<open>
  Claim C10. After \<open>makeLinks\<close>, for every family \<open>f\<close>, \<open>nlink[f]\<close> is the number of
  distinct connecting individuals in the chain of \<open>f\<close>, and the arc count of
  \<open>findBreaks\<close> is the sum of these numbers. \<open>addLink\<close> increments \<open>nlink[fam1]\<close> only
  when no link of the chain goes through the new individual; \<open>rmLink\<close> decrements it
  only when it has unlinked a link and no link of the remaining chain goes through the
  individual of the link it unlinked.
\<close>

theorem nlink_counts_distinct:
  "(linkRange st (fams (PedArray st ! pd)) \<longrightarrow>
      (\<forall>f < length (FamArray st).
          nlink (makeLinks st pd) ! f = card (fst ` set (linkList (makeLinks st pd) ! f)))
      \<and> narcs (makeLinks st pd)
          = (\<Sum>f < length (FamArray st). card (fst ` set (linkList (makeLinks st pd) ! f))))
   \<and> (f < length (nlink L) \<longrightarrow>
        nlink (addLink L f g x) ! f
          = (if x \<in> fst ` set (linkList L ! f) then nlink L ! f else nlink L ! f + 1))
   \<and> (f < length (nlink L) \<longrightarrow>
        nlink (rmLink L f g) ! f
          = (if nlink L ! f \<noteq> 0
                \<and> (\<exists>r. find (\<lambda>r. snd r = g) (linkList L ! f) = Some r
                         \<and> fst r \<notin> fst ` set (unlink g (linkList L ! f)))
             then nlink L ! f - 1 else nlink L ! f))"
proof (intro conjI impI)
  assume "linkRange st (fams (PedArray st ! pd))"
  then have inv: "linkInv (length (FamArray st)) (NInd st) (makeLinks st pd)"
    by (rule makeLinks_inv)
  then show "\<forall>f < length (FamArray st).
          nlink (makeLinks st pd) ! f = card (fst ` set (linkList (makeLinks st pd) ! f))"
    by (simp add: linkInv_def)
  show "narcs (makeLinks st pd)
          = (\<Sum>f < length (FamArray st). card (fst ` set (linkList (makeLinks st pd) ! f)))"
    using inv by (rule narcs_sum)
next
  assume "f < length (nlink L)"
  then show "nlink (addLink L f g x) ! f
          = (if x \<in> fst ` set (linkList L ! f) then nlink L ! f else nlink L ! f + 1)"
    by (simp add: addLink_def Let_def list_ex_fst)
next
  assume "f < length (nlink L)"
  then show "nlink (rmLink L f g) ! f
          = (if nlink L ! f \<noteq> 0
                \<and> (\<exists>r. find (\<lambda>r. snd r = g) (linkList L ! f) = Some r
                         \<and> fst r \<notin> fst ` set (unlink g (linkList L ! f)))
             then nlink L ! f - 1 else nlink L ! f)"
    by (auto simp: rmLink_def Let_def list_ex_fst split: option.splits)
qed

lemmas link_eval = makeLinks_def pruneLoop.simps prunePass_def pruneStep_def pruneFam_def
  freeChain_def rmLink_def linkFam_def linkShared_def linkParent_def addBoth_def addLink_def
  famSeq_def indSq_def links0_def narcs_def nodes_def findBreaks_def Let_def
  upt_rec [of _ "numeral _"]

lemma makeLinks_sibMating:
  "makeLinks sibMating 0
     = \<lparr>linkList = [[(2, 1), (3, 1)], [(2, 0), (3, 0)]], nlink = [2, 2], linkInd = [0, 0, 2, 2, 0]\<rparr>"
  by (simp add: link_eval sibMating_def exInd_def exFam_def NInd_def)

theorem nlink_counts_distinct_witness:
  "linkRange sibMating (fams (PedArray sibMating ! 0))
   \<and> nlink (makeLinks sibMating 0) ! 0 = card (fst ` set [(2, 1), (3, 1 :: nat)] :: nat set)
   \<and> narcs (makeLinks sibMating 0) = 4"
proof -
  have r: "linkRange sibMating (fams (PedArray sibMating ! 0))"
    by (simp add: linkRange_def sibMating_def exInd_def exFam_def NInd_def famSeq_def indSq_def)
  have n: "(0::nat) < length (FamArray sibMating)"
    by (simp add: sibMating_def)
  have l2: "length (FamArray sibMating) = 2"
    by (simp add: sibMating_def)
  note t = nlink_counts_distinct [of sibMating 0 0 "links0 1 1" 0 0, THEN conjunct1, rule_format, OF r]
  have a: "nlink (makeLinks sibMating 0) ! 0 = card (fst ` set [(2, 1), (3, 1 :: nat)] :: nat set)"
    using t [THEN conjunct1, rule_format, OF n] by (simp add: makeLinks_sibMating)
  have "narcs (makeLinks sibMating 0) = (\<Sum>f < length (FamArray sibMating).
      card (fst ` set (linkList (makeLinks sibMating 0) ! f)))"
    using t [THEN conjunct2] .
  also have "\<dots> = 4"
    unfolding makeLinks_sibMating l2 by (simp add: lessThan_Suc numeral_2_eq_2)
  finally have b: "narcs (makeLinks sibMating 0) = 4" .
  from r a b show ?thesis by blast
qed

subsection \<open>Symmetric chains and the pruning\<close>

text \<open>
  Links come in pairs: a link of \<open>f\<close> to \<open>g\<close> through \<open>x\<close> has its mirror, a link of
  \<open>g\<close> to \<open>f\<close> through \<open>x\<close>; no chain holds the same link twice and no family is
  linked to itself.
\<close>

definition symInv :: "nat \<Rightarrow> links \<Rightarrow> bool" where
  "symInv NF L \<longleftrightarrow>
     (\<forall>f < NF. distinct (linkList L ! f)
        \<and> (\<forall>r \<in> set (linkList L ! f).
              snd r < NF \<and> snd r \<noteq> f \<and> (fst r, f) \<in> set (linkList L ! snd r)))"

lemma rmLink_linkList:
  assumes inv: "linkInv NF NI L" and j: "j < NF"
  shows "linkList (rmLink L j i) = (linkList L)[j := unlink i (linkList L ! j)]"
proof -
  let ?rs = "linkList L ! j"
  have len: "length (linkList L) = NF" using inv by (simp add: linkInv_def)
  have cardj: "nlink L ! j = card (fst ` set ?rs)" using inv j by (simp add: linkInv_def)
  show ?thesis
  proof (cases "nlink L ! j = 0")
    case True
    then have "?rs = []" using cardj by simp
    then have "(linkList L)[j := unlink i ?rs] = linkList L"
      by (metis list_update_id unlink.simps(1))
    then show ?thesis using True by (simp add: rmLink_def)
  next
    case nz: False
    show ?thesis
    proof (cases "find (\<lambda>r. snd r = i) ?rs")
      case None
      then show ?thesis using nz by (simp add: rmLink_def unlink_none)
    next
      case (Some r)
      define rest where "rest = unlink i ?rs"
      have rest: "rest = remove1 r ?rs" "r \<in> set ?rs"
        using unlink_remove1 [OF Some] by (simp_all add: rest_def)
      have fs: "fst ` set ?rs = insert (fst r) (fst ` set rest)"
        using fst_set_remove1 [OF rest(2)] by (simp add: rest(1))
      show ?thesis
      proof (cases "fst r \<in> fst ` set rest")
        case True
        then show ?thesis using Some nz by (simp add: rmLink_def Let_def rest_def list_ex_fst)
      next
        case False
        have e: "nlink L ! j - 1 = 0 \<Longrightarrow> rest = []"
        proof -
          assume a: "nlink L ! j - 1 = 0"
          have "card (fst ` set ?rs) = card (fst ` set rest) + 1"
            using False by (simp add: fs)
          with a cardj have "card (fst ` set rest) = 0" by simp
          then show "rest = []" by simp
        qed
        have "linkList (rmLink L j i) = (if nlink L ! j - 1 = 0 then (linkList L)[j := rest, j := []]
            else (linkList L)[j := rest])"
          using Some nz False by (simp add: rmLink_def Let_def rest_def list_ex_fst)
        then show ?thesis using e by (simp add: rest_def split: if_splits)
      qed
    qed
  qed
qed

lemma rmFold_linkList:
  assumes inv: "linkInv NF NI L"
  shows "n \<le> NF \<Longrightarrow>
    linkList (fold (\<lambda>j L. rmLink L j i) [0..<n] L)
      = map (unlink i) (take n (linkList L)) @ drop n (linkList L)"
proof (induction n)
  case 0
  show ?case by simp
next
  case (Suc n)
  let ?M = "fold (\<lambda>j L. rmLink L j i) [0..<n] L"
  have n: "n < NF" using Suc.prems by simp
  have len: "length (linkList L) = NF" using inv by (simp add: linkInv_def)
  have ih: "linkList ?M = map (unlink i) (take n (linkList L)) @ drop n (linkList L)"
    using Suc by simp
  have invM: "linkInv NF NI ?M"
    using inv n by (intro rmFold_inv) simp_all
  have nth: "linkList ?M ! n = linkList L ! n"
    using n len by (simp add: ih nth_append)
  have "linkList (fold (\<lambda>j L. rmLink L j i) [0..<Suc n] L)
      = (linkList ?M)[n := unlink i (linkList L ! n)]"
    using rmLink_linkList [OF invM n] by (simp add: nth)
  also have "\<dots> = map (unlink i) (take (Suc n) (linkList L)) @ drop (Suc n) (linkList L)"
    using n len
    by (simp add: ih list_update_append take_Suc_conv_app_nth Cons_nth_drop_Suc [symmetric])
  finally show ?case .
qed

lemma pruneFam_linkList:
  assumes inv: "linkInv NF NI L"
  shows "linkList (pruneFam L i) = (map (unlink i) (linkList L))[i := []]"
proof -
  have len: "length (nlink L) = NF" "length (linkList L) = NF"
    using inv by (simp_all add: linkInv_def)
  have "linkList (fold (\<lambda>j L. rmLink L j i) [0..<NF] L) = map (unlink i) (linkList L)"
    using rmFold_linkList [OF inv, of NF i] len by simp
  then show ?thesis by (simp add: pruneFam_def freeChain_def len)
qed

lemma unlink_filter:
  "distinct rs \<Longrightarrow> (\<forall>r \<in> set rs. \<forall>q \<in> set rs. snd r = i \<and> snd q = i \<longrightarrow> r = q)
   \<Longrightarrow> unlink i rs = filter (\<lambda>r. snd r \<noteq> i) rs"
proof (induction rs)
  case Nil
  show ?case by simp
next
  case (Cons a rs)
  show ?case
  proof (cases "snd a = i")
    case True
    have "\<forall>q \<in> set rs. snd q \<noteq> i"
      using Cons.prems True by auto
    then have "filter (\<lambda>r. snd r \<noteq> i) rs = rs" by simp
    with True show ?thesis by simp
  next
    case False
    have "unlink i rs = filter (\<lambda>r. snd r \<noteq> i) rs"
      using Cons.prems by (intro Cons.IH) auto
    with False show ?thesis by simp
  qed
qed

lemma pruneFam_sym:
  assumes inv: "linkInv NF NI L" and sym: "symInv NF L" and i: "i < NF" and one: "nlink L ! i = 1"
  shows "symInv NF (pruneFam L i)"
proof -
  let ?ll = "linkList L"
  have len: "length ?ll = NF" using inv by (simp add: linkInv_def)
  have "card (fst ` set (?ll ! i)) = 1"
    using inv i one by (simp add: linkInv_def)
  then obtain x where x: "fst ` set (?ll ! i) = {x}"
    by (auto simp: card_1_singleton_iff)
  have s: "\<And>f r. f < NF \<Longrightarrow> r \<in> set (?ll ! f) \<Longrightarrow>
      snd r < NF \<and> snd r \<noteq> f \<and> (fst r, f) \<in> set (?ll ! snd r)"
    and d: "\<And>f. f < NF \<Longrightarrow> distinct (?ll ! f)"
    using sym by (auto simp: symInv_def)
  have uniq: "\<And>f r q. f < NF \<Longrightarrow> r \<in> set (?ll ! f) \<Longrightarrow> q \<in> set (?ll ! f) \<Longrightarrow>
      snd r = i \<Longrightarrow> snd q = i \<Longrightarrow> r = q"
  proof -
    fix f r q assume f: "f < NF" and r: "r \<in> set (?ll ! f)" and q: "q \<in> set (?ll ! f)"
      and sr: "snd r = i" and sq: "snd q = i"
    have "(fst r, f) \<in> set (?ll ! i)" "(fst q, f) \<in> set (?ll ! i)"
      using s [OF f r] s [OF f q] sr sq by simp_all
    then have "fst (fst r, f) \<in> fst ` set (?ll ! i)" "fst (fst q, f) \<in> fst ` set (?ll ! i)"
      by (blast, blast)
    then have "fst r \<in> fst ` set (?ll ! i)" "fst q \<in> fst ` set (?ll ! i)"
      by simp_all
    then have "fst r = fst q" using x by simp
    then show "r = q" using sr sq by (simp add: prod_eq_iff)
  qed
  have new: "\<And>f. f < NF \<Longrightarrow> linkList (pruneFam L i) ! f
      = (if f = i then [] else filter (\<lambda>r. snd r \<noteq> i) (?ll ! f))"
  proof -
    fix f assume f: "f < NF"
    have "unlink i (?ll ! f) = filter (\<lambda>r. snd r \<noteq> i) (?ll ! f)"
      using d [OF f] uniq [OF f] by (intro unlink_filter) auto
    then show "linkList (pruneFam L i) ! f
      = (if f = i then [] else filter (\<lambda>r. snd r \<noteq> i) (?ll ! f))"
      using f len by (simp add: pruneFam_linkList [OF inv] nth_list_update)
  qed
  show ?thesis
    unfolding symInv_def
  proof (intro allI impI conjI ballI)
    fix f assume f: "f < NF"
    show "distinct (linkList (pruneFam L i) ! f)"
      using d [OF f] by (simp add: new [OF f])
  next
    fix f r assume f: "f < NF" and r: "r \<in> set (linkList (pruneFam L i) ! f)"
    have fi: "f \<noteq> i" and r0: "r \<in> set (?ll ! f)" and ri: "snd r \<noteq> i"
      using r by (auto simp: new [OF f] split: if_splits)
    note o = s [OF f r0]
    show "snd r < NF" "snd r \<noteq> f" using o by simp_all
    show "(fst r, f) \<in> set (linkList (pruneFam L i) ! snd r)"
      using o ri fi by (simp add: new)
  qed
qed


lemma pruneStep_sym:
  "linkInv NF NI (fst Ld) \<Longrightarrow> symInv NF (fst Ld) \<Longrightarrow> i < NF \<Longrightarrow> symInv NF (fst (pruneStep i Ld))"
  by (simp add: pruneStep_def pruneFam_sym)

lemma pruneFold_sym:
  "linkInv NF NI (fst Ld) \<Longrightarrow> symInv NF (fst Ld) \<Longrightarrow> \<forall>i \<in> set is. i < NF
   \<Longrightarrow> symInv NF (fst (fold pruneStep is Ld))"
proof (induction "is" arbitrary: Ld)
  case Nil
  then show ?case by simp
next
  case (Cons i "is")
  have "linkInv NF NI (fst (pruneStep i Ld))" "symInv NF (fst (pruneStep i Ld))"
    using Cons.prems by (simp_all add: pruneStep_inv pruneStep_sym)
  from Cons.IH [OF this] Cons.prems(3) show ?case by simp
qed

lemma prunePass_sym: "linkInv NF NI L \<Longrightarrow> symInv NF L \<Longrightarrow> symInv NF (fst (prunePass L))"
  unfolding prunePass_def by (rule pruneFold_sym [where NI = NI]) (simp_all add: linkInv_def)

lemma pruneFold_done:
  "snd (fold pruneStep is Ld) \<Longrightarrow>
     fold pruneStep is Ld = Ld \<and> (\<forall>i \<in> set is. nlink (fst Ld) ! i \<noteq> 1)"
proof (induction "is" arbitrary: Ld)
  case Nil
  then show ?case by simp
next
  case (Cons i "is")
  from Cons.IH [of "pruneStep i Ld"] Cons.prems
  have a: "fold pruneStep is (pruneStep i Ld) = pruneStep i Ld"
    "\<forall>k \<in> set is. nlink (fst (pruneStep i Ld)) ! k \<noteq> 1"
    by simp_all
  have "snd (pruneStep i Ld)" using Cons.prems a(1) by simp
  then have "nlink (fst Ld) ! i \<noteq> 1" by (auto simp: pruneStep_def split: if_splits)
  then have "pruneStep i Ld = Ld" by (simp add: pruneStep_def)
  with a \<open>nlink (fst Ld) ! i \<noteq> 1\<close> show ?case by simp
qed

lemma prunePass_done:
  assumes "snd (prunePass L)"
  shows "fst (prunePass L) = L" "\<forall>i < length (nlink L). nlink L ! i \<noteq> 1"
  using pruneFold_done [of "[0..<length (nlink L)]" "(L, True)"] assms
  by (simp_all add: prunePass_def)

lemma pruneLoop_result:
  "linkInv NF NI L \<Longrightarrow> symInv NF L \<Longrightarrow>
     symInv NF (pruneLoop L) \<and> (\<forall>i < NF. nlink (pruneLoop L) ! i \<noteq> 1)"
proof (induction L rule: pruneLoop.induct)
  case (1 L)
  have len: "length (nlink L) = NF" using "1.prems"(1) by (simp add: linkInv_def)
  show ?case
  proof (cases "snd (prunePass L)")
    case True
    then have "pruneLoop L = L"
      using prunePass_done(1) [OF True] by (simp add: pruneLoop.simps [of L] Let_def)
    then show ?thesis using "1.prems"(2) prunePass_done(2) [OF True] len by simp
  next
    case False
    have "pruneLoop L = pruneLoop (fst (prunePass L))"
      using False by (simp add: pruneLoop.simps [of L] Let_def)
    with "1.IH" [OF refl False prunePass_inv [OF "1.prems"(1)] prunePass_sym [OF "1.prems"]]
    show ?thesis by simp
  qed
qed

subsection \<open>No fewer arcs than nodes\<close>

lemma length_filter_card: "length (filter P xs) = card {i. i < length xs \<and> P (xs ! i)}"
  by (rule length_filter_conv_card)

lemma occurs_pos:
  "occurs L x \<noteq> 0 \<longleftrightarrow> (\<exists>f < length (linkList L). x \<in> fst ` set (linkList L ! f))"
proof -
  have "occurs L x \<noteq> 0 \<longleftrightarrow> (\<exists>rs \<in> set (linkList L). through x rs \<noteq> 0)"
    by (auto simp: occurs_def)
  also have "\<dots> \<longleftrightarrow> (\<exists>rs \<in> set (linkList L). x \<in> fst ` set rs)"
    by (auto simp: through_def filter_empty_conv)
  also have "\<dots> \<longleftrightarrow> (\<exists>f < length (linkList L). x \<in> fst ` set (linkList L ! f))"
    by (metis in_set_conv_nth)
  finally show ?thesis .
qed

lemma card_ge_2: "finite S \<Longrightarrow> a \<in> S \<Longrightarrow> b \<in> S \<Longrightarrow> a \<noteq> b \<Longrightarrow> 2 \<le> card S"
proof -
  assume f: "finite S" and a: "a \<in> S" and b: "b \<in> S" and ab: "a \<noteq> b"
  have "card {a, b} \<le> card S" using f a b by (intro card_mono) auto
  with ab show ?thesis by simp
qed

lemma sum_ge_twice_card:
  fixes h :: "nat \<Rightarrow> nat"
  assumes "finite A" "B \<subseteq> A" "\<forall>x \<in> B. 2 \<le> h x"
  shows "2 * card B \<le> sum h A"
proof -
  have "2 * card B = (\<Sum>x \<in> B. 2)" by simp
  also have "\<dots> \<le> sum h B" using assms(3) by (intro sum_mono) simp
  also have "\<dots> \<le> sum h A" using assms(1,2) by (intro sum_mono2) simp_all
  finally show ?thesis .
qed

lemma arcs_cover_nodes:
  assumes inv: "linkInv NF NI L" and sym: "symInv NF L"
    and pruned: "\<forall>f < NF. nlink L ! f \<noteq> 1"
  shows "nodes L \<le> narcs L"
proof -
  let ?inds = "\<lambda>f. fst ` set (linkList L ! f)"
  have len: "length (linkList L) = NF" "length (nlink L) = NF" "length (linkInd L) = NI"
    using inv by (simp_all add: linkInv_def)
  have nl: "\<And>f. f < NF \<Longrightarrow> nlink L ! f = card (?inds f)"
    using inv by (simp add: linkInv_def)
  have rng: "\<And>f. f < NF \<Longrightarrow> ?inds f \<subseteq> {..<NI}"
    using inv by (auto simp: linkInv_def)
  define FS where "FS = {f. f < NF \<and> nlink L ! f \<noteq> 0}"
  define XS where "XS = {x. x < NI \<and> linkInd L ! x \<noteq> 0}"
  have nodes: "nodes L = card FS + card XS"
    by (simp add: nodes_def length_filter_card FS_def XS_def len)
  have arcs: "narcs L = (\<Sum>f < NF. card (?inds f))"
    using inv by (rule narcs_sum)
  have a1: "2 * card FS \<le> narcs L"
    unfolding arcs
  proof (rule sum_ge_twice_card)
    show "finite {..<NF}" by simp
    show "FS \<subseteq> {..<NF}" by (auto simp: FS_def)
    show "\<forall>f \<in> FS. 2 \<le> card (?inds f)"
    proof
      fix f assume "f \<in> FS"
      then have f: "f < NF" "nlink L ! f \<noteq> 0" by (simp_all add: FS_def)
      with pruned have "nlink L ! f \<noteq> 1" by simp
      with f have "2 \<le> nlink L ! f" by linarith
      then show "2 \<le> card (?inds f)" by (simp only: nl [OF f(1)])
    qed
  qed
  have ind: "\<And>f. f < NF \<Longrightarrow> card (?inds f) = (\<Sum>x < NI. if x \<in> ?inds f then 1 else 0)"
  proof -
    fix f assume f: "f < NF"
    have "(\<Sum>x < NI. if x \<in> ?inds f then 1 else 0) = card ({..<NI} \<inter> ?inds f)"
      by (simp add: sum.If_cases)
    also have "{..<NI} \<inter> ?inds f = ?inds f" using rng [OF f] by auto
    finally show "card (?inds f) = (\<Sum>x < NI. if x \<in> ?inds f then 1 else 0)" by simp
  qed
  have "narcs L = (\<Sum>f < NF. \<Sum>x < NI. if x \<in> ?inds f then 1 else 0)"
    unfolding arcs by (intro sum.cong refl) (simp add: ind)
  also have "\<dots> = (\<Sum>x < NI. \<Sum>f < NF. if x \<in> ?inds f then 1 else 0)"
    by (rule sum.swap)
  also have "\<dots> = (\<Sum>x < NI. card {f. f < NF \<and> x \<in> ?inds f})"
  proof (intro sum.cong refl)
    fix x
    have "(\<Sum>f < NF. if x \<in> ?inds f then 1 else 0) = card ({..<NF} \<inter> {f. x \<in> ?inds f})"
      by (simp add: sum.If_cases)
    also have "{..<NF} \<inter> {f. x \<in> ?inds f} = {f. f < NF \<and> x \<in> ?inds f}" by auto
    finally show "(\<Sum>f < NF. if x \<in> ?inds f then 1 else 0) = card {f. f < NF \<and> x \<in> ?inds f}" .
  qed
  finally have arcs2: "narcs L = (\<Sum>x < NI. card {f. f < NF \<and> x \<in> ?inds f})" .
  have a2: "2 * card XS \<le> narcs L"
    unfolding arcs2
  proof (rule sum_ge_twice_card)
    show "finite {..<NI}" by simp
    show "XS \<subseteq> {..<NI}" by (auto simp: XS_def)
    show "\<forall>x \<in> XS. 2 \<le> card {f. f < NF \<and> x \<in> ?inds f}"
    proof
      fix x assume "x \<in> XS"
      then have x: "x < NI" "linkInd L ! x \<noteq> 0" by (simp_all add: XS_def)
      have "occurs L x \<noteq> 0" using inv x by (auto simp: linkInv_def)
      then obtain f where f: "f < NF" "x \<in> ?inds f"
        using occurs_pos [of L x] len by auto
      then obtain r where r: "r \<in> set (linkList L ! f)" "fst r = x" by auto
      have g: "snd r < NF" "snd r \<noteq> f" "(x, f) \<in> set (linkList L ! snd r)"
        using sym f(1) r by (auto simp: symInv_def)
      have "fst (x, f) \<in> ?inds (snd r)" using g(3) by blast
      then have xg: "x \<in> ?inds (snd r)" by simp
      show "2 \<le> card {f. f < NF \<and> x \<in> ?inds f}"
        by (rule card_ge_2 [of _ f "snd r"]) (use f g xg in auto)
    qed
  qed
  from a1 a2 show ?thesis unfolding nodes by linarith
qed

subsection \<open>The links of a well-formed pedigree\<close>

definition par :: "pedstate \<Rightarrow> nat \<Rightarrow> nat set" where
  "par st F = {fa (FamArray st ! F), mo (FamArray st ! F)}"

definition pfam :: "pedstate \<Rightarrow> nat \<Rightarrow> nat option" where
  "pfam st p = fam (IndArray st ! p)"

text \<open>
  What the earlier phases guarantee for the families \<open>fs\<close> of a pedigree: the chain
  holds each family once; sequence numbers are in range and distinct; father and mother
  of a family differ; and a parent that is itself a child belongs to a family of the
  same pedigree of which it is not a parent (nobody is its own father or mother).
\<close>

definition wfPed :: "pedstate \<Rightarrow> nat list \<Rightarrow> bool" where
  "wfPed st fs \<longleftrightarrow>
     distinct fs \<and> linkRange st fs
     \<and> inj_on (famSeq st) (set fs)
     \<and> inj_on (indSq st) (\<Union>F \<in> set fs. par st F)
     \<and> (\<forall>F \<in> set fs. fa (FamArray st ! F) \<noteq> mo (FamArray st ! F)
           \<and> (\<forall>p \<in> par st F. \<forall>G. pfam st p = Some G \<longrightarrow> G \<in> set fs \<and> p \<notin> par st G))"

text \<open>
  The links present at some moment, as triples (family, individual, family) of indices
  into \<open>FamArray\<close> and \<open>IndArray\<close>: the chain of the family with sequence number \<open>f\<close>
  holds exactly the links of the triples that start at that family.
\<close>

definition chainOf :: "pedstate \<Rightarrow> (nat \<times> nat \<times> nat) set \<Rightarrow> nat \<Rightarrow> (nat \<times> nat) set" where
  "chainOf st A f = (\<lambda>t. (indSq st (fst (snd t)), famSeq st (snd (snd t)))) ` {t \<in> A. famSeq st (fst t) = f}"

definition Linked :: "pedstate \<Rightarrow> nat list \<Rightarrow> links \<Rightarrow> (nat \<times> nat \<times> nat) set \<Rightarrow> bool" where
  "Linked st fs L A \<longleftrightarrow>
     length (linkList L) = length (FamArray st)
     \<and> (\<forall>f < length (FamArray st). distinct (linkList L ! f))
     \<and> A \<subseteq> set fs \<times> (\<Union>F \<in> set fs. par st F) \<times> set fs
     \<and> (\<forall>f < length (FamArray st). set (linkList L ! f) = chainOf st A f)"

lemma chainOf_Un: "chainOf st (A \<union> B) f = chainOf st A f \<union> chainOf st B f"
  unfolding chainOf_def by blast

lemma chainOf_single:
  "chainOf st {(a, q, b)} f = (if famSeq st a = f then {(indSq st q, famSeq st b)} else {})"
  unfolding chainOf_def by auto


lemma chainOf_insert:
  "chainOf st (insert (a, q, b) A) f
     = (if famSeq st a = f then insert (indSq st q, famSeq st b) (chainOf st A f) else chainOf st A f)"
proof -
  have "insert (a, q, b) A = {(a, q, b)} \<union> A" by simp
  then have "chainOf st (insert (a, q, b) A) f = chainOf st {(a, q, b)} f \<union> chainOf st A f"
    by (simp only: chainOf_Un)
  then show ?thesis by (simp add: chainOf_single)
qed

lemma chainOf_empty: "chainOf st {} f = {}"
  unfolding chainOf_def by simp

lemma chainOf_mem:
  "r \<in> chainOf st A f \<Longrightarrow> \<exists>a q b. (a, q, b) \<in> A \<and> famSeq st a = f \<and> r = (indSq st q, famSeq st b)"
  unfolding chainOf_def by force

lemma chainOf_memI:
  "(a, q, b) \<in> A \<Longrightarrow> famSeq st a = f \<Longrightarrow> (indSq st q, famSeq st b) \<in> chainOf st A f"
  unfolding chainOf_def by force

lemma addLink_linkList:
  "linkList (addLink L f g x) = (linkList L)[f := linkList L ! f @ [(x, g)]]"
  by (simp add: addLink_def Let_def)

lemma addBoth_linkList:
  assumes "f < length (linkList L)" "g < length (linkList L)" "f \<noteq> g"
  shows "length (linkList (addBoth f g x L)) = length (linkList L)"
    and "linkList (addBoth f g x L) ! f = linkList L ! f @ [(x, g)]"
    and "linkList (addBoth f g x L) ! g = linkList L ! g @ [(x, f)]"
    and "\<And>k. k \<noteq> f \<Longrightarrow> k \<noteq> g \<Longrightarrow> linkList (addBoth f g x L) ! k = linkList L ! k"
  using assms by (simp_all add: addBoth_def addLink_linkList)

lemma addBoth_Linked:
  assumes wf: "wfPed st fs" and lk: "Linked st fs L A"
    and F: "F \<in> set fs" and G: "G \<in> set fs" and p: "p \<in> (\<Union>F \<in> set fs. par st F)"
    and FG: "F \<noteq> G" and fresh: "(F, p, G) \<notin> A" "(G, p, F) \<notin> A"
  shows "Linked st fs (addBoth (famSeq st F) (famSeq st G) (indSq st p) L) (A \<union> {(F, p, G), (G, p, F)})"
proof -
  let ?NF = "length (FamArray st)"
  let ?f = "famSeq st F" and ?g = "famSeq st G" and ?x = "indSq st p"
  let ?L' = "addBoth ?f ?g ?x L"
  let ?A' = "A \<union> {(F, p, G), (G, p, F)}"
  have len: "length (linkList L) = ?NF" using lk by (simp add: Linked_def)
  have dom: "A \<subseteq> set fs \<times> (\<Union>F \<in> set fs. par st F) \<times> set fs" using lk by (simp add: Linked_def)
  have injF: "inj_on (famSeq st) (set fs)" and injI: "inj_on (indSq st) (\<Union>F \<in> set fs. par st F)"
    using wf by (simp_all add: wfPed_def)
  have lr: "linkRange st fs" using wf by (simp add: wfPed_def)
  have rng: "?f < ?NF" "?g < ?NF"
    using lr F G unfolding linkRange_def by blast+
  have ne: "?f \<noteq> ?g"
  proof
    assume "?f = ?g"
    from inj_onD [OF injF this F G] FG show False by simp
  qed
  have old: "\<And>k. k < ?NF \<Longrightarrow> set (linkList L ! k) = chainOf st A k"
    using lk by (simp add: Linked_def)
  have dist: "\<And>k. k < ?NF \<Longrightarrow> distinct (linkList L ! k)"
    using lk by (simp add: Linked_def)
  have rng': "?f < length (linkList L)" "?g < length (linkList L)" using rng len by simp_all
  note nth = addBoth_linkList [OF rng' ne, where x = ?x]
  have uniq: "\<And>a q b a' b'. (a, q, b) \<in> A \<Longrightarrow> a' \<in> set fs \<Longrightarrow> b' \<in> set fs \<Longrightarrow>
      famSeq st a = famSeq st a' \<Longrightarrow> indSq st q = ?x \<Longrightarrow> famSeq st b = famSeq st b'
      \<Longrightarrow> a = a' \<and> q = p \<and> b = b'"
  proof -
    fix a q b a' b'
    assume t: "(a, q, b) \<in> A" and a': "a' \<in> set fs" and b': "b' \<in> set fs"
      and e: "famSeq st a = famSeq st a'" "indSq st q = ?x" "famSeq st b = famSeq st b'"
    have m: "a \<in> set fs" "q \<in> (\<Union>F \<in> set fs. par st F)" "b \<in> set fs"
      using dom t by auto
    show "a = a' \<and> q = p \<and> b = b'"
      using inj_onD [OF injF e(1) m(1) a'] inj_onD [OF injI e(2) m(2) p] inj_onD [OF injF e(3) m(3) b']
      by simp
  qed
  have notin1: "(?x, ?g) \<notin> set (linkList L ! ?f)"
  proof
    assume "(?x, ?g) \<in> set (linkList L ! ?f)"
    then have "(?x, ?g) \<in> chainOf st A ?f" using old [OF rng(1)] by simp
    from chainOf_mem [OF this] obtain a q b where t: "(a, q, b) \<in> A" "famSeq st a = ?f"
      "indSq st q = ?x" "famSeq st b = ?g"
      by auto
    from uniq [OF t(1) F G t(2) t(3) t(4)] t(1) fresh(1) show False by simp
  qed
  have notin2: "(?x, ?f) \<notin> set (linkList L ! ?g)"
  proof
    assume "(?x, ?f) \<in> set (linkList L ! ?g)"
    then have "(?x, ?f) \<in> chainOf st A ?g" using old [OF rng(2)] by simp
    from chainOf_mem [OF this] obtain a q b where t: "(a, q, b) \<in> A" "famSeq st a = ?g"
      "indSq st q = ?x" "famSeq st b = ?f"
      by auto
    from uniq [OF t(1) G F t(2) t(3) t(4)] t(1) fresh(2) show False by simp
  qed
  have d': "\<forall>k < ?NF. distinct (linkList ?L' ! k)"
  proof (intro allI impI)
    fix k assume k: "k < ?NF"
    consider "k = ?f" | "k = ?g" | "k \<noteq> ?f" "k \<noteq> ?g" by blast
    then show "distinct (linkList ?L' ! k)"
    proof cases
      case 1
      then show ?thesis using dist [OF rng(1)] notin1 nth(2) by simp
    next
      case 2
      then show ?thesis using dist [OF rng(2)] notin2 nth(3) by simp
    next
      case 3
      then show ?thesis using dist [OF k] nth(4) [OF 3] by simp
    qed
  qed
  have s': "\<forall>k < ?NF. set (linkList ?L' ! k) = chainOf st ?A' k"
  proof (intro allI impI)
    fix k assume k: "k < ?NF"
    consider "k = ?f" | "k = ?g" | "k \<noteq> ?f" "k \<noteq> ?g" by blast
    then show "set (linkList ?L' ! k) = chainOf st ?A' k"
    proof cases
      case 1
      then show ?thesis using old [OF rng(1)] ne nth(2) by (auto simp add: chainOf_insert)
    next
      case 2
      then show ?thesis using old [OF rng(2)] ne nth(3) by (auto simp add: chainOf_insert)
    next
      case 3
      then have "?f \<noteq> k" "?g \<noteq> k" by auto
      then show ?thesis using old [OF k] nth(4) [OF 3] by (auto simp add: chainOf_insert)
    qed
  qed
  have dom': "?A' \<subseteq> set fs \<times> (\<Union>F \<in> set fs. par st F) \<times> set fs"
    using dom F G p by auto
  show ?thesis
    unfolding Linked_def using nth(1) len d' s' dom' by simp
qed

text \<open>
  Which links the families handled so far (\<open>D\<close>) account for, and which the family in
  hand (\<open>F\<close>): through the parents \<open>ps\<close> handled so far, and to the earlier families
  \<open>S\<close> compared so far.
\<close>

definition doneLink :: "pedstate \<Rightarrow> nat set \<Rightarrow> nat \<Rightarrow> nat \<Rightarrow> nat \<Rightarrow> bool" where
  "doneLink st D a p b \<longleftrightarrow>
     a \<in> D \<and> p \<in> par st a \<and> (pfam st p = Some b \<or> (b \<in> D \<and> p \<in> par st b))"

definition curLink :: "pedstate \<Rightarrow> nat \<Rightarrow> nat set \<Rightarrow> nat set \<Rightarrow> nat \<Rightarrow> nat \<Rightarrow> nat \<Rightarrow> bool" where
  "curLink st F ps S a p b \<longleftrightarrow>
     a = F \<and> p \<in> par st F \<and> ((p \<in> ps \<and> pfam st p = Some b) \<or> (b \<in> S \<and> p \<in> par st b))"

definition stage :: "pedstate \<Rightarrow> nat set \<Rightarrow> nat \<Rightarrow> nat set \<Rightarrow> nat set \<Rightarrow> nat \<Rightarrow> nat \<Rightarrow> nat \<Rightarrow> bool" where
  "stage st D F ps S a p b \<longleftrightarrow> doneLink st D a p b \<or> curLink st F ps S a p b"

definition symT :: "(nat \<Rightarrow> nat \<Rightarrow> nat \<Rightarrow> bool) \<Rightarrow> (nat \<times> nat \<times> nat) set \<Rightarrow> bool" where
  "symT P A \<longleftrightarrow> (\<forall>a p b. (a, p, b) \<in> A \<longrightarrow> (b, p, a) \<in> A \<and> a \<noteq> b \<and> (P a p b \<or> P b p a))"

definition LinkedAt :: "pedstate \<Rightarrow> nat list \<Rightarrow> (nat \<Rightarrow> nat \<Rightarrow> nat \<Rightarrow> bool) \<Rightarrow> links \<Rightarrow> bool" where
  "LinkedAt st fs P L \<longleftrightarrow> (\<exists>A. Linked st fs L A \<and> symT P A)"

lemma wf_neq: "wfPed st fs \<Longrightarrow> F \<in> set fs \<Longrightarrow> fa (FamArray st ! F) \<noteq> mo (FamArray st ! F)"
  unfolding wfPed_def by blast

lemma wf_child:
  "wfPed st fs \<Longrightarrow> F \<in> set fs \<Longrightarrow> p \<in> par st F \<Longrightarrow> pfam st p = Some G \<Longrightarrow> G \<in> set fs \<and> p \<notin> par st G"
  unfolding wfPed_def by blast

lemma at_mono:
  assumes "LinkedAt st fs P L" and mono: "\<And>a q b. P a q b \<Longrightarrow> P' a q b"
  shows "LinkedAt st fs P' L"
proof -
  from assms(1) obtain A where A: "Linked st fs L A" "symT P A" unfolding LinkedAt_def by blast
  have "symT P' A" using A(2) mono unfolding symT_def by blast
  then show ?thesis using A(1) unfolding LinkedAt_def by blast
qed

lemma addBoth_at:
  assumes wf: "wfPed st fs" and at: "LinkedAt st fs P L"
    and F: "F \<in> set fs" and G: "G \<in> set fs" and p: "p \<in> par st F"
    and FG: "F \<noteq> G" and fresh: "\<not> P F p G" "\<not> P G p F"
    and mono: "\<And>a q b. P a q b \<Longrightarrow> P' a q b" and new: "P' F p G"
  shows "LinkedAt st fs P' (addBoth (famSeq st F) (famSeq st G) (indSq st p) L)"
proof -
  from at obtain A where A: "Linked st fs L A" "symT P A" unfolding LinkedAt_def by blast
  have f1: "(F, p, G) \<notin> A" using A(2) fresh unfolding symT_def by blast
  have f2: "(G, p, F) \<notin> A" using A(2) fresh unfolding symT_def by blast
  have pp: "p \<in> (\<Union>F \<in> set fs. par st F)" using p F by blast
  note l = addBoth_Linked [OF wf A(1) F G pp FG f1 f2]
  have "symT P' (A \<union> {(F, p, G), (G, p, F)})"
    unfolding symT_def
  proof (intro allI impI)
    fix a q b assume "(a, q, b) \<in> A \<union> {(F, p, G), (G, p, F)}"
    then consider "(a, q, b) \<in> A" | "a = F" "q = p" "b = G" | "a = G" "q = p" "b = F" by blast
    then show "(b, q, a) \<in> A \<union> {(F, p, G), (G, p, F)} \<and> a \<noteq> b \<and> (P' a q b \<or> P' b q a)"
    proof cases
      case 1
      then have "(b, q, a) \<in> A \<and> a \<noteq> b \<and> (P a q b \<or> P b q a)" using A(2) unfolding symT_def by blast
      then show ?thesis using mono by blast
    next
      case 2
      then show ?thesis using FG new by simp
    next
      case 3
      then show ?thesis using FG new by simp
    qed
  qed
  then show ?thesis using l unfolding LinkedAt_def by blast
qed

lemma stage_mono:
  "stage st D F ps S a q b \<Longrightarrow> ps \<subseteq> ps' \<Longrightarrow> S \<subseteq> S' \<Longrightarrow> stage st D F ps' S' a q b"
  unfolding stage_def curLink_def by blast

lemma linkParent_at:
  assumes wf: "wfPed st fs" and F: "F \<in> set fs" and FD: "F \<notin> D"
    and p: "p \<in> par st F" and pps: "p \<notin> ps"
    and at: "LinkedAt st fs (stage st D F ps {}) L"
  shows "LinkedAt st fs (stage st D F (insert p ps) {}) (linkParent st F p L)"
proof (cases "pfam st p")
  case None
  have "LinkedAt st fs (stage st D F (insert p ps) {}) L"
    by (rule at_mono [OF at]) (erule stage_mono, blast, blast)
  then show ?thesis using None by (simp add: linkParent_def pfam_def)
next
  case (Some G)
  note c = wf_child [OF wf F p Some]
  have FG: "F \<noteq> G" using c p by blast
  have fresh1: "\<not> stage st D F ps {} F p G"
    using FD pps unfolding stage_def doneLink_def curLink_def by blast
  have fresh2: "\<not> stage st D F ps {} G p F"
    using c FG unfolding stage_def doneLink_def curLink_def by blast
  have new: "stage st D F (insert p ps) {} F p G"
    using p Some unfolding stage_def curLink_def by blast
  have G: "G \<in> set fs" using c by blast
  have mono: "\<And>a q b. stage st D F ps {} a q b \<Longrightarrow> stage st D F (insert p ps) {} a q b"
    by (erule stage_mono) blast+
  have "LinkedAt st fs (stage st D F (insert p ps) {})
         (addBoth (famSeq st F) (famSeq st G) (indSq st p) L)"
    by (rule addBoth_at [where P = "stage st D F ps {}" and P' = "stage st D F (insert p ps) {}",
          OF wf at F G p FG fresh1 fresh2 mono new])
  then show ?thesis using Some by (simp add: linkParent_def pfam_def)
qed

lemma linkShared_at:
  assumes wf: "wfPed st fs" and F: "F \<in> set fs" and FD: "F \<notin> D" and D: "D \<subseteq> set fs"
    and F2: "F2 \<in> D" and F2S: "F2 \<notin> S"
    and at: "LinkedAt st fs (stage st D F ps S) L"
  shows "LinkedAt st fs (stage st D F ps (insert F2 S)) (linkShared st F F2 L)"
proof -
  let ?P = "stage st D F ps S" and ?P' = "stage st D F ps (insert F2 S)"
  let ?fa = "fa (FamArray st ! F)" and ?mo = "mo (FamArray st ! F)"
  let ?c1 = "fa (FamArray st ! F2) = ?fa" and ?c2 = "mo (FamArray st ! F2) = ?mo"
  let ?P1 = "\<lambda>a q b. ?P a q b \<or> (?c1 \<and> a = F \<and> q = ?fa \<and> b = F2)"
  let ?L1 = "if ?c1 then addBoth (famSeq st F) (famSeq st F2) (indSq st ?fa) L else L"
  have F2fs: "F2 \<in> set fs" using F2 D by blast
  have ne: "F \<noteq> F2" using F2 FD by blast
  have fam: "?fa \<noteq> ?mo" by (rule wf_neq [OF wf F])
  have fresh: "\<And>p. p \<in> par st F \<Longrightarrow> p \<in> par st F2 \<Longrightarrow> \<not> ?P F p F2 \<and> \<not> ?P F2 p F"
  proof -
    fix p assume p: "p \<in> par st F" "p \<in> par st F2"
    have a: "pfam st p \<noteq> Some F2" using wf_child [OF wf F2fs p(2)] p(2) by blast
    have b: "pfam st p \<noteq> Some F" using wf_child [OF wf F p(1)] p(1) by blast
    show "\<not> ?P F p F2 \<and> \<not> ?P F2 p F"
      using a b FD F2S ne unfolding stage_def doneLink_def curLink_def by blast
  qed
  have pf: "?fa \<in> par st F" and pm: "?mo \<in> par st F" by (simp_all add: par_def)
  have at1: "LinkedAt st fs ?P1 ?L1"
  proof (cases ?c1)
    case True
    then have p2: "?fa \<in> par st F2" by (simp add: par_def)
    note fr = fresh [OF pf p2]
    have "LinkedAt st fs ?P1 (addBoth (famSeq st F) (famSeq st F2) (indSq st ?fa) L)"
      by (rule addBoth_at [where P = ?P and P' = ?P1, OF wf at F F2fs pf ne]) (use fr True in simp_all)
    then show ?thesis using True by simp
  next
    case False
    have "LinkedAt st fs ?P1 L" by (rule at_mono [OF at]) simp
    then show ?thesis using False by simp
  qed
  have mono1: "\<And>a q b. ?P1 a q b \<Longrightarrow> ?P' a q b"
  proof -
    fix a q b assume "?P1 a q b"
    then show "?P' a q b"
    proof
      assume "?P a q b"
      then show ?thesis by (rule stage_mono) blast+
    next
      assume h: "?c1 \<and> a = F \<and> q = ?fa \<and> b = F2"
      then have "?fa \<in> par st F2" by (simp add: par_def)
      then show ?thesis using h pf unfolding stage_def curLink_def by blast
    qed
  qed
  have at2: "LinkedAt st fs ?P'
       (if ?c2 then addBoth (famSeq st F) (famSeq st F2) (indSq st ?mo) ?L1 else ?L1)"
  proof (cases ?c2)
    case True
    then have p2: "?mo \<in> par st F2" by (simp add: par_def)
    note fr = fresh [OF pm p2]
    have f1: "\<not> ?P1 F ?mo F2" using fr fam by auto
    have f2: "\<not> ?P1 F2 ?mo F" using fr ne by auto
    have new: "?P' F ?mo F2" using pm p2 unfolding stage_def curLink_def by blast
    have "LinkedAt st fs ?P' (addBoth (famSeq st F) (famSeq st F2) (indSq st ?mo) ?L1)"
      by (rule addBoth_at [where P = ?P1 and P' = ?P', OF wf at1 F F2fs pm ne f1 f2 mono1 new])
    then show ?thesis using True by simp
  next
    case False
    have "LinkedAt st fs ?P' ?L1" by (rule at_mono [OF at1 mono1])
    then show ?thesis using False by simp
  qed
  have "linkShared st F F2 L
      = (if ?c2 then addBoth (famSeq st F) (famSeq st F2) (indSq st ?mo) ?L1 else ?L1)"
    by (simp add: linkShared_def Let_def)
  then show ?thesis using at2 by simp
qed

lemma foldShared_at:
  assumes wf: "wfPed st fs" and F: "F \<in> set fs" and FD: "F \<notin> D" and D: "D \<subseteq> set fs"
  shows "distinct xs \<Longrightarrow> set xs \<subseteq> D \<Longrightarrow> set xs \<inter> S = {}
     \<Longrightarrow> LinkedAt st fs (stage st D F ps S) L
     \<Longrightarrow> LinkedAt st fs (stage st D F ps (S \<union> set xs)) (fold (linkShared st F) xs L)"
proof (induction xs arbitrary: S L)
  case Nil
  then show ?case by simp
next
  case (Cons x xs)
  have x: "x \<in> D" "x \<notin> S" using Cons.prems by auto
  note s = linkShared_at [OF wf F FD D x Cons.prems(4)]
  have d: "distinct xs" "set xs \<subseteq> D" "set xs \<inter> insert x S = {}" using Cons.prems by auto
  note i = Cons.IH [OF d s]
  have "insert x S \<union> set xs = S \<union> set (x # xs)" by auto
  then show ?case using i by simp
qed

lemma linkFam_at:
  assumes wf: "wfPed st fs" and F: "F \<in> set fs" and FD: "F \<notin> set prev"
    and D: "set prev \<subseteq> set fs" and dist: "distinct prev"
    and at: "LinkedAt st fs (stage st (set prev) F {} {}) L"
  shows "LinkedAt st fs (stage st (set prev) F (par st F) (set prev)) (linkFam st prev F L)"
proof -
  let ?fa = "fa (FamArray st ! F)" and ?mo = "mo (FamArray st ! F)"
  have fam: "?mo \<notin> {?fa}" using wf_neq [OF wf F] by simp
  have pf: "?fa \<in> par st F" and pm: "?mo \<in> par st F" by (simp_all add: par_def)
  note a = linkParent_at [OF wf F FD pf _ at]
  have a': "LinkedAt st fs (stage st (set prev) F {?fa} {}) (linkParent st F ?fa L)"
    by (rule a) simp
  note b = linkParent_at [OF wf F FD pm fam a']
  have e: "insert ?mo {?fa} = par st F" by (auto simp: par_def)
  note c = foldShared_at [where S = "{}", OF wf F FD D dist _ _ b [unfolded e]]
  have "LinkedAt st fs (stage st (set prev) F (par st F) ({} \<union> set prev))
     (fold (linkShared st F) prev (linkParent st F ?mo (linkParent st F ?fa L)))"
    by (rule c) simp_all
  then show ?thesis by (simp add: linkFam_def)
qed

lemma stage_next:
  "stage st D F (par st F) D a p b \<Longrightarrow> stage st (insert F D) F' {} {} a p b"
  unfolding stage_def doneLink_def curLink_def by blast

lemma stage_start:
  "stage st D F {} {} a p b \<Longrightarrow> stage st D F' {} {} a p b"
  unfolding stage_def curLink_def by blast

lemma linkFams_at:
  assumes wf: "wfPed st fs"
  shows "distinct (prev @ todo) \<Longrightarrow> set (prev @ todo) \<subseteq> set fs
     \<Longrightarrow> LinkedAt st fs (stage st (set prev) X {} {}) L
     \<Longrightarrow> LinkedAt st fs (stage st (set (prev @ todo)) X {} {}) (linkFams st prev todo L)"
proof (induction todo arbitrary: prev L)
  case Nil
  then show ?case by simp
next
  case (Cons f todo)
  have f: "f \<in> set fs" "f \<notin> set prev" "set prev \<subseteq> set fs" "distinct prev"
    using Cons.prems by auto
  have at0: "LinkedAt st fs (stage st (set prev) f {} {}) L"
    by (rule at_mono [OF Cons.prems(3)]) (erule stage_start)
  note a = linkFam_at [OF wf f at0]
  have at1: "LinkedAt st fs (stage st (set (prev @ [f])) X {} {}) (linkFam st prev f L)"
    by (rule at_mono [OF a]) (simp add: stage_next)
  have d: "distinct ((prev @ [f]) @ todo)" "set ((prev @ [f]) @ todo) \<subseteq> set fs"
    using Cons.prems by auto
  note i = Cons.IH [OF d at1]
  then show ?case by simp
qed

lemma links0_at: "LinkedAt st fs P (links0 (length (FamArray st)) NI)"
proof -
  have "Linked st fs (links0 (length (FamArray st)) NI) {}"
    by (simp add: Linked_def links0_def chainOf_empty)
  moreover have "symT P {}" by (simp add: symT_def)
  ultimately show ?thesis unfolding LinkedAt_def by blast
qed

lemma at_symInv:
  assumes wf: "wfPed st fs" and at: "LinkedAt st fs P L"
  shows "symInv (length (FamArray st)) L"
proof -
  let ?NF = "length (FamArray st)"
  from at obtain A where A: "Linked st fs L A" "symT P A" unfolding LinkedAt_def by blast
  have injF: "inj_on (famSeq st) (set fs)" using wf by (simp add: wfPed_def)
  have lr: "linkRange st fs" using wf by (simp add: wfPed_def)
  have dom: "A \<subseteq> set fs \<times> (\<Union>F \<in> set fs. par st F) \<times> set fs" using A(1) by (simp add: Linked_def)
  have ch: "\<And>k. k < ?NF \<Longrightarrow> set (linkList L ! k) = chainOf st A k"
    using A(1) by (simp add: Linked_def)
  have dist: "\<And>k. k < ?NF \<Longrightarrow> distinct (linkList L ! k)"
    using A(1) by (simp add: Linked_def)
  show ?thesis
    unfolding symInv_def
  proof (intro allI impI conjI ballI)
    fix f assume "f < ?NF"
    then show "distinct (linkList L ! f)" by (rule dist)
  next
    fix f r assume f: "f < ?NF" and r: "r \<in> set (linkList L ! f)"
    then have "r \<in> chainOf st A f" using ch by simp
    from chainOf_mem [OF this] obtain a q b where
      t: "(a, q, b) \<in> A" "famSeq st a = f" "r = (indSq st q, famSeq st b)" by blast
    have m: "a \<in> set fs" "b \<in> set fs" using dom t(1) by auto
    have s: "(b, q, a) \<in> A" "a \<noteq> b" using A(2) t(1) unfolding symT_def by blast+
    have bl: "famSeq st b < ?NF" using lr m(2) unfolding linkRange_def by blast
    have ne: "famSeq st b \<noteq> famSeq st a"
    proof
      assume "famSeq st b = famSeq st a"
      from inj_onD [OF injF this m(2) m(1)] s(2) show False by simp
    qed
    have "(indSq st q, famSeq st a) \<in> chainOf st A (famSeq st b)"
      by (rule chainOf_memI [OF s(1)]) simp
    then have mirror: "(indSq st q, famSeq st a) \<in> set (linkList L ! famSeq st b)"
      using ch [OF bl] by simp
    show "snd r < ?NF" using bl t(3) by simp
    show "snd r \<noteq> f" using ne t(2) t(3) by simp
    show "(fst r, f) \<in> set (linkList L ! snd r)" using mirror t(2) t(3) by simp
  qed
qed

lemma linkFams_sym:
  assumes wf: "wfPed st fs"
  shows "symInv (length (FamArray st)) (linkFams st [] fs (links0 (length (FamArray st)) NI))"
proof -
  have d: "distinct ([] @ fs)" "set ([] @ fs) \<subseteq> set fs" using wf by (simp_all add: wfPed_def)
  have "LinkedAt st fs (stage st (set []) 0 {} {}) (links0 (length (FamArray st)) NI)"
    by (rule links0_at)
  from linkFams_at [OF wf d this] show ?thesis by (rule at_symInv [OF wf])
qed

subsection \<open>The number of loop breakers\<close>


lemma makeLinks_pruned:
  assumes wf: "wfPed st (fams (PedArray st ! pd))"
  shows "linkInv (length (FamArray st)) (NInd st) (makeLinks st pd)"
    and "\<forall>f < length (FamArray st). nlink (makeLinks st pd) ! f \<noteq> 1"
    and "nodes (makeLinks st pd) \<le> narcs (makeLinks st pd)"
proof -
  let ?NF = "length (FamArray st)" and ?fs = "fams (PedArray st ! pd)"
  let ?L0 = "linkFams st [] ?fs (links0 ?NF (NInd st))"
  have lr: "linkRange st ?fs" using wf by (simp add: wfPed_def)
  have i0: "linkInv ?NF (NInd st) ?L0"
    by (intro linkFams_inv [where fs = ?fs] links0_inv lr) simp_all
  have s0: "symInv ?NF ?L0" by (rule linkFams_sym [OF wf])
  note r = pruneLoop_result [OF i0 s0]
  show inv: "linkInv ?NF (NInd st) (makeLinks st pd)" using lr by (rule makeLinks_inv)
  show pr: "\<forall>f < ?NF. nlink (makeLinks st pd) ! f \<noteq> 1" using r by (simp add: makeLinks_def)
  have sy: "symInv ?NF (makeLinks st pd)" using r by (simp add: makeLinks_def)
  show "nodes (makeLinks st pd) \<le> narcs (makeLinks st pd)"
    by (rule arcs_cover_nodes [OF inv sy pr])
qed


lemma wfPed_sibMating: "wfPed sibMating (fams (PedArray sibMating ! 0))"
  by (simp add: wfPed_def linkRange_def par_def pfam_def famSeq_def indSq_def
      sibMating_def exInd_def exFam_def NInd_def)


text \<open>
  Claim C4. A pedigree with fewer arcs (the sum over its families of the number of
  children plus 2) than nodes (individuals plus families) is reported with \<open>hasloops\<close>
  false and 0 loop breakers. For every pedigree whose families are those \<open>makePeds\<close>
  chains, \<open>checkLooping\<close> reports a number of loop breakers, and it is not negative.
\<close>

theorem checkLooping_nonneg:
  "(pedArcs st pd < nind (PedArray st ! pd) + nfam (PedArray st ! pd) \<longrightarrow>
       checkLooping st pd = Some ((PedArray st ! pd)\<lparr>hasloops := False, nlbrk := 0\<rparr>))
   \<and> (wfPed st (fams (PedArray st ! pd)) \<longrightarrow>
       (\<exists>p. checkLooping st pd = Some p \<and> 0 \<le> nlbrk p))"
proof (intro conjI impI)
  assume "pedArcs st pd < nind (PedArray st ! pd) + nfam (PedArray st ! pd)"
  then show "checkLooping st pd = Some ((PedArray st ! pd)\<lparr>hasloops := False, nlbrk := 0\<rparr>)"
    by (simp add: checkLooping_def Let_def)
next
  assume wf: "wfPed st (fams (PedArray st ! pd))"
  note m = makeLinks_pruned [OF wf]
  show "\<exists>p. checkLooping st pd = Some p \<and> 0 \<le> nlbrk p"
    using m(3) by (simp add: checkLooping_def findBreaks_def Let_def)
qed

text \<open>Two founders and their child, as one pedigree.\<close>

definition nuclear :: pedstate where
  "nuclear =
     \<lparr>IndArray = [exInd None 0, exInd None 1, exInd (Some 0) 2],
      FamArray = [exFam 0 1 1],
      PedArray = [\<lparr>fams = [0], nfam = 1, nind = 3, nfou = 2, inbred = False, hasloops = True, nlbrk = 5\<rparr>],
      IndSort = [0, 1, 2], IndSeq = [0, 1, 2]\<rparr>"

theorem checkLooping_nonneg_witness:
  "pedArcs nuclear 0 < nind (PedArray nuclear ! 0) + nfam (PedArray nuclear ! 0)
   \<and> checkLooping nuclear 0 = Some ((PedArray nuclear ! 0)\<lparr>hasloops := False, nlbrk := 0\<rparr>)
   \<and> wfPed sibMating (fams (PedArray sibMating ! 0))
   \<and> (\<exists>p. checkLooping sibMating 0 = Some p \<and> 0 \<le> nlbrk p)"
proof -
  have a: "pedArcs nuclear 0 < nind (PedArray nuclear ! 0) + nfam (PedArray nuclear ! 0)"
    by (simp add: pedArcs_def nuclear_def exFam_def)
  have w: "wfPed sibMating (fams (PedArray sibMating ! 0))"
    by (rule wfPed_sibMating)
  from checkLooping_nonneg [of nuclear 0, THEN conjunct1, rule_format, OF a]
    checkLooping_nonneg [of sibMating 0, THEN conjunct2, rule_format, OF w] a w
  show ?thesis by blast
qed

end
